theory Spec2Isabelle
  imports Complex_Main "HOL-Library.Word" "HOL-Library.Signed_Division"
begin

section \<open>LINE with vector inputs: a model of line\_vector.cpp\<close>

text \<open>
  The C++ types \<open>float\<close> (\<open>real\<close> in the source) and \<open>double\<close> are modelled by the reals.
  Where the rounding of the machine decides what the code does (the table of negative
  samples, the degrees it is built from, the learning rate) every operation is followed by
  the rounding to its type, \<open>to_float\<close> or \<open>to_double\<close>; elsewhere (the alias table, the
  sigmoid table, the embeddings) the operations are exact. Integers that index arrays are
  \<open>nat\<close> or \<open>int\<close>; the two hash and random generators that rely on wrap-around are
  modelled on words.

  A run of the source can leave the behaviour the C++ standard defines. Those exits are
  values of the model.
\<close>

datatype alloc_site =
    A_edge_source_id | A_edge_target_id | A_edge_weight
  | A_alias | A_prob | A_norm_prob | A_large_block | A_small_block
  | A_emb_vertex | A_emb_context | A_neg_table | A_sigmoid_table

datatype fault =
    MallocExit              \<comment> \<open>\<open>malloc_exit = 1; return\<close>: the checked allocation failure\<close>
  | NullDeref alloc_site    \<comment> \<open>a store through the null pointer an unchecked allocation returned\<close>
  | OutOfBounds             \<comment> \<open>an array access outside the allocated block\<close>
  | UninitRead              \<comment> \<open>a read of a cell that was allocated and never written\<close>
  | BufferOverflow          \<comment> \<open>\<open>strcpy\<close> of a name that does not fit \<open>char[MAX_STRING]\<close>\<close>
  | NotANumber              \<comment> \<open>a floating-point operation with no real value (0/0, pow of a negative)\<close>
  | DivByZero               \<comment> \<open>integer division by zero\<close>
  | IntOverflow             \<comment> \<open>an \<open>int\<close> counter incremented past \<open>INT_MAX\<close>\<close>
  | Diverges                \<comment> \<open>a loop that never ends\<close>

text \<open>C's conversion of a floating-point value to an integer type truncates towards zero.\<close>

definition trunc_to_int :: "real \<Rightarrow> int" where
  "trunc_to_int x = (if 0 \<le> x then \<lfloor>x\<rfloor> else \<lceil>x\<rceil>)"

text \<open>
  A block returned by \<open>malloc\<close> holds no value until it is written: a cell is \<open>None\<close>
  until then. \<open>rd\<close> is an array read.
\<close>

definition rd :: "'a option list \<Rightarrow> int \<Rightarrow> fault + 'a" where
  "rd a i =
     (if 0 \<le> i \<and> i < int (length a)
      then (case a ! nat i of None \<Rightarrow> Inl UninitRead | Some v \<Rightarrow> Inr v)
      else Inl OutOfBounds)"

text \<open>A read of a block that is written in full when it is built.\<close>

definition cell :: "'a list \<Rightarrow> int \<Rightarrow> fault + 'a" where
  "cell a i = (if 0 \<le> i \<and> i < int (length a) then Inr (a ! nat i) else Inl OutOfBounds)"

subsection \<open>Binary floating point\<close>

text \<open>
  The source computes in \<open>float\<close> (its type \<open>real\<close>) and in \<open>double\<close>. A value of either
  type is a real \<open>m * 2 ^ e\<close> with an integer \<open>m\<close> of at most \<open>p\<close> bits and \<open>e\<close> at least
  \<open>emin\<close>: \<open>p = 24\<close> and \<open>emin = - 149\<close> for \<open>float\<close>, \<open>p = 53\<close> and \<open>emin = - 1074\<close> for
  \<open>double\<close>. An operation gives the value of the type that is nearest to the exact result,
  the one with an even \<open>m\<close> when two are as near. The exponent has no upper bound here: a
  result too large for the type, which the machine turns into an infinity, stays finite.
\<close>

text \<open>The integer nearest to \<open>y\<close>, the even one of two.\<close>

definition round_even :: "real \<Rightarrow> int" where
  "round_even y =
     (if y - of_int \<lfloor>y\<rfloor> < 1/2 then \<lfloor>y\<rfloor>
      else if 1/2 < y - of_int \<lfloor>y\<rfloor> then \<lfloor>y\<rfloor> + 1
      else if even \<lfloor>y\<rfloor> then \<lfloor>y\<rfloor> else \<lfloor>y\<rfloor> + 1)"

text \<open>
  The exponent of the last bit of the values of the type around \<open>x\<close>, and the rounding of
  \<open>x\<close> to the type.
\<close>

definition ulp_exp :: "nat \<Rightarrow> int \<Rightarrow> real \<Rightarrow> int" where
  "ulp_exp p emin x = max (\<lfloor>log 2 \<bar>x\<bar>\<rfloor> - int p + 1) emin"

definition fl_round :: "nat \<Rightarrow> int \<Rightarrow> real \<Rightarrow> real" where
  "fl_round p emin x =
     sgn x * (of_int (round_even (\<bar>x\<bar> / 2 powr of_int (ulp_exp p emin x)))
              * 2 powr of_int (ulp_exp p emin x))"

definition to_float :: "real \<Rightarrow> real" where
  "to_float = fl_round 24 (- 149)"

definition to_double :: "real \<Rightarrow> real" where
  "to_double = fl_round 53 (- 1074)"

text \<open>The values of the type.\<close>

definition representable :: "nat \<Rightarrow> int \<Rightarrow> real \<Rightarrow> bool" where
  "representable p emin x \<longleftrightarrow>
     (\<exists>m e. x = of_int m * 2 powr of_int e \<and> \<bar>m\<bar> < 2 ^ p \<and> emin \<le> e)"

subsection \<open>The vertex index\<close>

definition MAX_STRING :: nat where
  "MAX_STRING = 100"

definition hash_table_size :: nat where
  "hash_table_size = 30000000"

record ClassVertex =
  degree :: real
  name :: string

text \<open>
  \<open>Hash\<close>, on 32-bit unsigned integers. \<open>*key++\<close> is a \<open>char\<close>, which is signed where the
  program is built (x86-64): a byte of 128 or more is a negative value before it is added.
\<close>

definition char_value :: "char \<Rightarrow> 32 word" where
  "char_value c =
     (if (of_char c :: int) < 128 then word_of_int (of_char c) else word_of_int (of_char c - 256))"

fun Hash_loop :: "32 word \<Rightarrow> string \<Rightarrow> 32 word" where
  "Hash_loop hash [] = hash"
| "Hash_loop hash (c # key) = Hash_loop (hash * 131 + char_value c) key"

definition Hash :: "string \<Rightarrow> nat" where
  "Hash key = unat (Hash_loop 0 key) mod hash_table_size"

text \<open>
  \<open>vertex_hash_table\<close> is a block of \<open>hash_table_size\<close> cells, \<open>-1\<close> in each after
  \<open>InitHashTable\<close>; an address is below \<open>hash_table_size\<close>. The two probing loops have no
  bound in the source. They visit the addresses in a cycle of length \<open>hash_table_size\<close>, so
  a loop that has not ended after that many cells never ends: \<open>fuel\<close> counts the cells
  left to visit, and running out of it is \<open>Diverges\<close>.
\<close>

definition InitHashTable :: "nat \<Rightarrow> int" where
  "InitHashTable = (\<lambda>k. - 1)"

fun probe_free :: "nat \<Rightarrow> (nat \<Rightarrow> int) \<Rightarrow> nat \<Rightarrow> nat option" where
  "probe_free 0 tab addr = None"
| "probe_free (Suc fuel) tab addr =
     (if tab addr \<noteq> - 1 then probe_free fuel tab ((addr + 1) mod hash_table_size)
      else Some addr)"

definition InsertHashTable :: "(nat \<Rightarrow> int) \<Rightarrow> string \<Rightarrow> int \<Rightarrow> fault + (nat \<Rightarrow> int)" where
  "InsertHashTable tab key val =
     (case probe_free hash_table_size tab (Hash key) of
        None \<Rightarrow> Inl Diverges
      | Some addr \<Rightarrow> Inr (tab(addr := val)))"

text \<open>
  \<open>SearchHashTable\<close>: \<open>strcmp\<close> compares the key with the name of the vertex the cell
  points to.
\<close>

fun probe_key ::
  "nat \<Rightarrow> ClassVertex list \<Rightarrow> (nat \<Rightarrow> int) \<Rightarrow> string \<Rightarrow> nat \<Rightarrow> fault + int" where
  "probe_key 0 vertex tab key addr = Inl Diverges"
| "probe_key (Suc fuel) vertex tab key addr =
     (if tab addr = - 1 then Inr (- 1)
      else if \<not> (0 \<le> tab addr \<and> tab addr < int (length vertex)) then Inl OutOfBounds
      else if key = name (vertex ! nat (tab addr)) then Inr (tab addr)
      else probe_key fuel vertex tab key ((addr + 1) mod hash_table_size))"

definition SearchHashTable :: "ClassVertex list \<Rightarrow> (nat \<Rightarrow> int) \<Rightarrow> string \<Rightarrow> fault + int" where
  "SearchHashTable vertex tab key = probe_key hash_table_size vertex tab key (Hash key)"

text \<open>
  \<open>AddVertex\<close>. \<open>vertex\<close> is the list of the \<open>num_vertices\<close> vertices in use; the block
  behind it grows by \<open>realloc\<close> before it is full. The name stored is cut to
  \<open>MAX_STRING - 1\<close> characters, the key inserted in the hash table is not. The result is the
  new id with the new state.
\<close>

definition AddVertex ::
  "string \<Rightarrow> ClassVertex list \<times> (nat \<Rightarrow> int)
     \<Rightarrow> fault + (int \<times> ClassVertex list \<times> (nat \<Rightarrow> int))" where
  "AddVertex nm st =
     (let len = (if length nm + 1 > MAX_STRING then MAX_STRING else length nm + 1);
          vertex = fst st @ [\<lparr>degree = 0, name = take (len - 1) nm\<rparr>];
          num_vertices = length vertex
      in case InsertHashTable (snd st) nm (int num_vertices - 1) of
           Inl e \<Rightarrow> Inl e
         | Inr tab \<Rightarrow> Inr (int num_vertices - 1, vertex, tab))"

text \<open>
  Lines 339 and 340, and 344 and 345: \<open>vid = SearchHashTable(name); if (vid == -1) vid =
  AddVertex(name);\<close>, the insertion of the specification.
\<close>

definition Insert ::
  "string \<Rightarrow> ClassVertex list \<times> (nat \<Rightarrow> int)
     \<Rightarrow> fault + (int \<times> ClassVertex list \<times> (nat \<Rightarrow> int))" where
  "Insert nm st =
     (case SearchHashTable (fst st) (snd st) nm of
        Inl e \<Rightarrow> Inl e
      | Inr vid \<Rightarrow> if vid = - 1 then AddVertex nm st else Inr (vid, fst st, snd st))"

subsection \<open>Reading the edges\<close>

text \<open>
  A name arrives as a \<open>std::string\<close>; \<open>strcpy\<close> copies its bytes up to the first NUL into a
  buffer of \<open>MAX_STRING\<close> bytes, and writes past the buffer when there are \<open>MAX_STRING\<close> or
  more of them.
\<close>

definition c_str :: "string \<Rightarrow> string" where
  "c_str s = takeWhile (\<lambda>c. c \<noteq> CHR 0x00) s"

definition strcpy_name :: "string \<Rightarrow> fault + string" where
  "strcpy_name s = (if length (c_str s) < MAX_STRING then Inr (c_str s) else Inl BufferOverflow)"

record graph =
  g_vertex :: "ClassVertex list"
  g_hash :: "nat \<Rightarrow> int"
  g_source :: "nat list"
  g_target :: "nat list"
  g_weight :: "real list"

text \<open>
  \<open>vid = \<dots>; vertex[vid].degree += weight;\<close> for one end of an edge; the sum is a
  \<open>double\<close>.
\<close>

definition add_endpoint ::
  "string \<Rightarrow> real \<Rightarrow> ClassVertex list \<times> (nat \<Rightarrow> int)
     \<Rightarrow> fault + (nat \<times> ClassVertex list \<times> (nat \<Rightarrow> int))" where
  "add_endpoint nm weight st =
     (case Insert nm st of
        Inl e \<Rightarrow> Inl e
      | Inr (vid, vertex, tab) \<Rightarrow>
         if 0 \<le> vid \<and> vid < int (length vertex)
         then Inr (nat vid,
                   vertex[nat vid := (vertex ! nat vid)
                                      \<lparr>degree := to_double (degree (vertex ! nat vid) + weight)\<rparr>],
                   tab)
         else Inl OutOfBounds)"

text \<open>
  The loop of \<open>VectorReadData\<close>, lines 327 to 350, over the edges \<open>ks\<close> that are left; the
  cells of the three edge arrays are appended in the order of \<open>k\<close>. \<open>g_vertex\<close>, \<open>g_hash\<close>,
  \<open>g_source\<close>, \<open>g_target\<close> and \<open>g_weight\<close> stand for \<open>vertex\<close>, \<open>vertex_hash_table\<close>,
  \<open>edge_source_id\<close>, \<open>edge_target_id\<close> and \<open>edge_weight\<close>.
\<close>

fun read_edges ::
  "string list \<Rightarrow> string list \<Rightarrow> real list \<Rightarrow> nat list \<Rightarrow> graph \<Rightarrow> fault + graph" where
  "read_edges input_u input_v input_w [] g = Inr g"
| "read_edges input_u input_v input_w (k # ks) g =
     (case cell input_u (int k) of Inl e \<Rightarrow> Inl e | Inr su \<Rightarrow>
     (case strcpy_name su of Inl e \<Rightarrow> Inl e | Inr name_v1 \<Rightarrow>
     (case cell input_v (int k) of Inl e \<Rightarrow> Inl e | Inr sv \<Rightarrow>
     (case strcpy_name sv of Inl e \<Rightarrow> Inl e | Inr name_v2 \<Rightarrow>
     (case cell input_w (int k) of Inl e \<Rightarrow> Inl e | Inr weight \<Rightarrow>
     (case add_endpoint name_v1 weight (g_vertex g, g_hash g) of Inl e \<Rightarrow> Inl e
      | Inr (vid1, vertex1, tab1) \<Rightarrow>
     (case add_endpoint name_v2 weight (vertex1, tab1) of Inl e \<Rightarrow> Inl e
      | Inr (vid2, vertex2, tab2) \<Rightarrow>
         read_edges input_u input_v input_w ks
           (g\<lparr>g_vertex := vertex2, g_hash := tab2, g_source := g_source g @ [vid1],
               g_target := g_target g @ [vid2], g_weight := g_weight g @ [weight]\<rparr>))))))))"

text \<open>
  \<open>VectorReadData\<close>, called after \<open>InitHashTable\<close> with the hash table \<open>tab\<close>; \<open>ok\<close> tells
  which allocations succeed. The counter \<open>k\<close> of the loop is an \<open>int\<close> and \<open>num_edges\<close> a
  \<open>long long\<close>: with more than \<open>INT_MAX\<close> edges the loop runs for \<open>k = 0, \<dots>, INT_MAX\<close>
  and then increments \<open>k\<close> past \<open>INT_MAX\<close>.
\<close>

definition INT_MAX :: nat where
  "INT_MAX = 2147483647"

definition VectorReadData ::
  "(alloc_site \<Rightarrow> bool) \<Rightarrow> (nat \<Rightarrow> int) \<Rightarrow> string list \<Rightarrow> string list \<Rightarrow> real list
     \<Rightarrow> fault + graph" where
  "VectorReadData ok tab input_u input_v input_w =
     (if ok A_edge_source_id \<and> ok A_edge_target_id \<and> ok A_edge_weight
      then
        (if length input_u \<le> INT_MAX
         then read_edges input_u input_v input_w [0..<length input_u]
                \<lparr>g_vertex = [], g_hash = tab, g_source = [], g_target = [], g_weight = []\<rparr>
         else
           (case read_edges input_u input_v input_w [0..<INT_MAX + 1]
                   \<lparr>g_vertex = [], g_hash = tab, g_source = [], g_target = [], g_weight = []\<rparr> of
              Inl e \<Rightarrow> Inl e
            | Inr g \<Rightarrow> Inl IntOverflow))
      else Inl MallocExit)"

text \<open>
  The names in the order in which the loop meets them (the two ends of the first edge, of
  the second, and so on), the list of their first occurrences, and the position of a
  name in a list.
\<close>

definition stream_names :: "string list \<Rightarrow> string list \<Rightarrow> string list" where
  "stream_names input_u input_v = concat (map (\<lambda>(u, v). [c_str u, c_str v]) (zip input_u input_v))"

definition note_name :: "string \<Rightarrow> string list \<Rightarrow> string list" where
  "note_name nm seen = (if nm \<in> set seen then seen else seen @ [nm])"

definition first_occurrences :: "string list \<Rightarrow> string list" where
  "first_occurrences names = fold note_name names []"

definition index_of :: "'a list \<Rightarrow> 'a \<Rightarrow> nat" where
  "index_of xs x = length (takeWhile (\<lambda>y. y \<noteq> x) xs)"

text \<open>
  The invariant of the hash table: the names are distinct, a cell is free or holds the id
  of a vertex, as many cells are taken as there are vertices, and every vertex is found
  from the hash of its name after a run of cells that are taken.
\<close>

definition hash_inv :: "ClassVertex list \<Rightarrow> (nat \<Rightarrow> int) \<Rightarrow> bool" where
  "hash_inv vertex tab \<longleftrightarrow>
     distinct (map name vertex)
     \<and> (\<forall>a. tab a = - 1 \<or> (0 \<le> tab a \<and> tab a < int (length vertex)))
     \<and> {a. tab a \<noteq> - 1} \<subseteq> {..<hash_table_size}
     \<and> card {a. tab a \<noteq> - 1} = length vertex
     \<and> (\<forall>i < length vertex. \<exists>k < hash_table_size.
           tab ((Hash (name (vertex ! i)) + k) mod hash_table_size) = int i
           \<and> (\<forall>j<k. tab ((Hash (name (vertex ! i)) + j) mod hash_table_size) \<noteq> - 1))"

text \<open>A name of 100 bytes.\<close>

definition long_name :: string where
  "long_name = replicate 100 (CHR ''a'')"

subsection \<open>The sigmoid table\<close>

definition SIGMOID_BOUND :: int where
  "SIGMOID_BOUND = 6"

definition sigmoid_table_size :: nat where
  "sigmoid_table_size = 1000"

text \<open>
  \<open>x = 2 * SIGMOID_BOUND * k / sigmoid_table_size - SIGMOID_BOUND\<close>: every operand is an
  \<open>int\<close>, so the division is the integer division, and only the result is converted to
  \<open>real\<close>.
\<close>

definition sigmoid_arg :: "nat \<Rightarrow> real" where
  "sigmoid_arg k = of_int (2 * SIGMOID_BOUND * int k div int sigmoid_table_size - SIGMOID_BOUND)"

definition InitSigmoidTable :: "real option list" where
  "InitSigmoidTable =
     fold (\<lambda>k t. t[k := Some (1 / (1 + exp (- sigmoid_arg k)))])
       [0..<sigmoid_table_size]
       (replicate (sigmoid_table_size + 1) None)"

definition FastSigmoid :: "real option list \<Rightarrow> real \<Rightarrow> fault + real" where
  "FastSigmoid sigmoid_table x =
     (if x > of_int SIGMOID_BOUND then Inr 1
      else if x < - of_int SIGMOID_BOUND then Inr 0
      else rd sigmoid_table
             (trunc_to_int ((x + of_int SIGMOID_BOUND) * real sigmoid_table_size
                              / of_int SIGMOID_BOUND / 2)))"

subsection \<open>The alias table\<close>

text \<open>
  The working state of \<open>InitAliasTable\<close>. \<open>prob\<close> and \<open>alias_tab\<close> (\<open>alias\<close> in the source) are the two blocks the
  function allocates and leaves to \<open>SampleAnEdge\<close>; a cell is \<open>None\<close> until the function
  stores into it. \<open>norm_prob\<close> is written in full by the second loop before it is read.
  \<open>small_block[0..num_small_block)\<close> and \<open>large_block[0..num_large_block)\<close> are used as
  stacks: each is the list of its live cells, the top of the stack first.
\<close>

record alias_work =
  prob :: "real option list"
  alias_tab :: "nat option list"
  norm_prob :: "real list"
  small_block :: "nat list"
  large_block :: "nat list"

text \<open>Lines 145 to 151: \<open>k\<close> runs from \<open>num_edges - 1\<close> down to 0.\<close>

definition alias_classify :: "real list \<Rightarrow> alias_work" where
  "alias_classify np =
     fold (\<lambda>k w. if norm_prob w ! k < 1
                   then w\<lparr>small_block := k # small_block w\<rparr>
                   else w\<lparr>large_block := k # large_block w\<rparr>)
       (rev [0..<length np])
       \<lparr>prob = replicate (length np) None, alias_tab = replicate (length np) None,
        norm_prob = np, small_block = [], large_block = []\<rparr>"

text \<open>Lines 153 to 164: the pairing loop.\<close>

function alias_pair :: "alias_work \<Rightarrow> alias_work" where
  "alias_pair w =
     (case small_block w of
        [] \<Rightarrow> w
      | cur_small_block # ss \<Rightarrow>
         (case large_block w of
            [] \<Rightarrow> w
          | cur_large_block # ls \<Rightarrow>
             (let np = (norm_prob w)
                     [cur_large_block :=
                        norm_prob w ! cur_large_block + norm_prob w ! cur_small_block - 1];
                  w' = w\<lparr>prob := (prob w)[cur_small_block := Some (norm_prob w ! cur_small_block)],
                         alias_tab := (alias_tab w)[cur_small_block := Some cur_large_block],
                         norm_prob := np\<rparr>
              in if np ! cur_large_block < 1
                 then alias_pair (w'\<lparr>small_block := cur_large_block # ss, large_block := ls\<rparr>)
                 else alias_pair (w'\<lparr>small_block := ss, large_block := cur_large_block # ls\<rparr>))))"
  by pat_completeness auto
termination
  by (relation "measure (\<lambda>w. length (small_block w) + length (large_block w))") auto

declare alias_pair.simps [simp del]

text \<open>Lines 166 and 167: what is left on either stack gets probability 1.\<close>

definition alias_finish :: "alias_work \<Rightarrow> alias_work" where
  "alias_finish w =
     (let w1 = fold (\<lambda>k v. v\<lparr>prob := (prob v)[k := Some 1]\<rparr>) (large_block w)
                 (w\<lparr>large_block := []\<rparr>)
      in fold (\<lambda>k v. v\<lparr>prob := (prob v)[k := Some 1]\<rparr>) (small_block w1)
           (w1\<lparr>small_block := []\<rparr>))"

text \<open>
  \<open>InitAliasTable\<close>, with \<open>ok\<close> telling which allocations succeed. A sum of 0 makes
  \<open>edge_weight[k] * num_edges / sum\<close> an infinity or a NaN, which the reals do not have.
\<close>

definition InitAliasTable ::
  "(alloc_site \<Rightarrow> bool) \<Rightarrow> real list \<Rightarrow> fault + (real option list \<times> nat option list)" where
  "InitAliasTable ok edge_weight =
     (if \<not> ok A_alias \<or> \<not> ok A_prob then Inl MallocExit
      else if \<not> ok A_norm_prob \<or> \<not> ok A_large_block \<or> \<not> ok A_small_block then Inl MallocExit
      else
        (let num_edges = length edge_weight;
             sum = fold (\<lambda>k s. s + edge_weight ! k) [0..<num_edges] 0
         in if sum = 0 \<and> num_edges \<noteq> 0 then Inl NotANumber
            else
              (let np = map (\<lambda>k. edge_weight ! k * real num_edges / sum) [0..<num_edges];
                   w = alias_finish (alias_pair (alias_classify np))
               in Inr (prob w, alias_tab w))))"

definition SampleAnEdge ::
  "real option list \<times> nat option list \<Rightarrow> nat \<Rightarrow> real \<Rightarrow> real \<Rightarrow> fault + nat" where
  "SampleAnEdge tbl num_edges rand_value1 rand_value2 =
     (let k = trunc_to_int (real num_edges * rand_value1)
      in case rd (fst tbl) k of
           Inl e \<Rightarrow> Inl e
         | Inr p \<Rightarrow> if rand_value2 < p then Inr (nat k) else rd (snd tbl) k)"

text \<open>
  The set of pairs \<open>(r1, r2)\<close> of the unit square on which \<open>SampleAnEdge\<close> returns \<open>j\<close> is
  a union of rectangles: over the strip \<open>k / n \<le> r1 < (k + 1) / n\<close> of width \<open>1 / n\<close> it
  is \<open>r2 < prob[k]\<close> when \<open>k = j\<close>, together with \<open>prob[k] \<le> r2\<close> when \<open>alias[k] = j\<close>.
  \<open>slot_mass\<close> is the length of that set of \<open>r2\<close> within \<open>[0, 1)\<close>, and \<open>sample_mass\<close> the
  area of the union.
\<close>

definition clamp01 :: "real \<Rightarrow> real" where
  "clamp01 p = min 1 (max 0 p)"

definition slot_mass :: "real option list \<times> nat option list \<Rightarrow> nat \<Rightarrow> nat \<Rightarrow> real" where
  "slot_mass tbl k j =
     (case fst tbl ! k of
        None \<Rightarrow> 0
      | Some p \<Rightarrow> (if k = j then clamp01 p else 0)
                + (if snd tbl ! k = Some j then 1 - clamp01 p else 0))"

definition sample_mass :: "real option list \<times> nat option list \<Rightarrow> nat \<Rightarrow> nat \<Rightarrow> real" where
  "sample_mass tbl n j = (\<Sum>k<n. slot_mass tbl k j) / real n"

text \<open>
  The invariant of the pairing loop, for the weights \<open>W\<close> normalised to mean 1. An index is
  queued while it is on one of the two stacks, and settled once the loop has popped it from
  the stack of small entries.
\<close>

definition queued :: "alias_work \<Rightarrow> nat set" where
  "queued w = set (small_block w) \<union> set (large_block w)"

definition settled :: "nat \<Rightarrow> alias_work \<Rightarrow> nat set" where
  "settled n w = {k. k < n \<and> k \<notin> queued w}"

definition alias_inv :: "real list \<Rightarrow> alias_work \<Rightarrow> bool" where
  "alias_inv W w \<longleftrightarrow>
     length (prob w) = length W \<and> length (alias_tab w) = length W
     \<and> length (norm_prob w) = length W
     \<and> distinct (small_block w @ large_block w)
     \<and> (\<forall>q \<in> queued w. q < length W)
     \<and> (\<forall>s \<in> set (small_block w). 0 < norm_prob w ! s \<and> norm_prob w ! s < 1)
     \<and> (\<forall>l \<in> set (large_block w). 1 \<le> norm_prob w ! l)
     \<and> (\<forall>q \<in> queued w. alias_tab w ! q = None)
     \<and> (\<forall>k \<in> settled (length W) w.
           \<exists>p l. prob w ! k = Some p \<and> 0 < p \<and> p < 1 \<and> alias_tab w ! k = Some l \<and> l < length W)
     \<and> (\<forall>j < length W.
           (\<Sum>k \<in> settled (length W) w. slot_mass (prob w, alias_tab w) k j)
             + (if j \<in> queued w then norm_prob w ! j else 0) = W ! j)"

definition norm_weights :: "real list \<Rightarrow> real list" where
  "norm_weights ws = map (\<lambda>k. ws ! k * real (length ws) / sum_list ws) [0..<length ws]"

subsection \<open>The table of negative samples\<close>

definition neg_table_size :: nat where
  "neg_table_size = 100000000"


text \<open>
  \<open>InitNegTable\<close> computes in \<open>double\<close>. \<open>(double)(k + 1) / neg_table_size\<close> is the quotient
  of two integers that convert exactly, rounded once.
\<close>

definition neg_level :: "nat \<Rightarrow> nat \<Rightarrow> real" where
  "neg_level n k = to_double (real (k + 1) / real n)"

text \<open>
  The second loop of \<open>InitNegTable\<close>, lines 203 to 212, from slot \<open>k\<close> on, for a table of
  \<open>n\<close> slots; the result is the list of the cells \<open>neg_table[k..n)\<close>. \<open>degs\<close> holds the
  degrees of the \<open>num_vertices\<close> vertices: a read of \<open>vertex[vid]\<close> with \<open>vid\<close> outside
  them is a fault; \<open>sum_deg\<close> is the source's \<open>sum\<close>. The source's loop condition is
  \<open>k != neg_table_size\<close>, with \<open>k\<close> counting up from 0. \<open>pw d\<close> is the result of the call
  \<open>pow(d, NEG_SAMPLING_POWER)\<close> of the C library for a degree \<open>d \<ge> 0\<close>: the library is
  not part of the source and the standard does not fix the last bit of its results, so
  the function is a parameter. The sum and the quotient are rounded to \<open>double\<close>.
\<close>

function neg_fill ::
  "(real \<Rightarrow> real) \<Rightarrow> nat \<Rightarrow> real list \<Rightarrow> real \<Rightarrow> nat \<Rightarrow> real \<Rightarrow> real \<Rightarrow> int
     \<Rightarrow> fault + int list" where
  "neg_fill pw n degs sum_deg k cur_sum por vid =
     (if n \<le> k then Inr []
      else if neg_level n k > por
      then (if 0 \<le> vid \<and> vid < int (length degs)
            then (let cur_sum' = to_double (cur_sum + pw (degs ! nat vid));
                      por' = to_double (cur_sum' / sum_deg);
                      vid' = vid + 1
                  in case neg_fill pw n degs sum_deg (k + 1) cur_sum' por' vid' of
                       Inl e \<Rightarrow> Inl e
                     | Inr t \<Rightarrow> Inr ((vid' - 1) # t))
            else Inl OutOfBounds)
      else (case neg_fill pw n degs sum_deg (k + 1) cur_sum por vid of
              Inl e \<Rightarrow> Inl e
            | Inr t \<Rightarrow> Inr ((vid - 1) # t)))"
  by pat_completeness auto
termination
  by (relation "measure (\<lambda>(pw, n, degs, sum_deg, k, cur_sum, por, vid). n - k)") auto

declare neg_fill.simps [simp del]

text \<open>
  \<open>InitNegTable\<close>. The allocation of \<open>neg_table\<close> is not checked: when it fails, the store
  to \<open>neg_table[0]\<close> goes through the null pointer. \<open>pow\<close> of a negative degree is a NaN,
  and so is \<open>cur_sum / sum\<close> when the sum is 0.
\<close>

definition InitNegTable ::
  "(real \<Rightarrow> real) \<Rightarrow> (alloc_site \<Rightarrow> bool) \<Rightarrow> real list \<Rightarrow> fault + int list" where
  "InitNegTable pw ok degs =
     (if \<not> ok A_neg_table then Inl (NullDeref A_neg_table)
      else if \<exists>d \<in> set degs. d < 0 then Inl NotANumber
      else
        (let sum = fold (\<lambda>k s. to_double (s + pw (degs ! k))) [0..<length degs] 0
         in if sum = 0 then Inl NotANumber
            else neg_fill pw neg_table_size degs sum 0 0 0 0))"










subsection \<open>The embeddings and one update\<close>

text \<open>
  \<open>emb_vertex\<close> and \<open>emb_context\<close> are two flat blocks of \<open>num_vertices * dim\<close> cells, row
  \<open>a\<close> at the offset \<open>a * dim\<close>. A pointer into one of them, such as the arguments
  \<open>&emb_vertex[lu]\<close> and \<open>&emb_context[lv]\<close> of \<open>Update\<close>, is the block and the offset, so
  that two pointers into the same block can overlap. \<open>dim\<close> and \<open>num_negative\<close> are
  natural numbers (\<open>n_dim\<close> and \<open>emb_dim\<close> stand for the source's \<open>dim\<close>): a negative \<open>dim\<close> or a \<open>num_negative\<close> below \<open>-1\<close> is outside the
  configurations the program is meant for.
\<close>

record embeddings =
  emb_vertex :: "real list"
  emb_context :: "real list"

datatype block = Emb_vertex | Emb_context

fun get_block :: "embeddings \<Rightarrow> block \<Rightarrow> real list" where
  "get_block E Emb_vertex = emb_vertex E"
| "get_block E Emb_context = emb_context E"

fun put_block :: "embeddings \<Rightarrow> block \<Rightarrow> nat \<Rightarrow> real \<Rightarrow> embeddings" where
  "put_block E Emb_vertex i x = E\<lparr>emb_vertex := (emb_vertex E)[i := x]\<rparr>"
| "put_block E Emb_context i x = E\<lparr>emb_context := (emb_context E)[i := x]\<rparr>"

text \<open>
  \<open>Update(vec_u, vec_v, vec_error, label)\<close>, lines 243 to 250, with \<open>vec_u = &emb_vertex[lu]\<close>
  and \<open>vec_v\<close> the cell \<open>lv\<close> of the block \<open>b\<close>. The three loops run over \<open>c = 0, \<dots>, dim - 1\<close>;
  the accesses are within the blocks when the two rows are, which is checked once. The
  third loop reads \<open>vec_u[c]\<close> from the embeddings as they are when it gets to \<open>c\<close>.
\<close>

definition Update ::
  "nat \<Rightarrow> real \<Rightarrow> real option list \<Rightarrow> embeddings \<Rightarrow> nat \<Rightarrow> block \<times> nat \<Rightarrow> real list \<Rightarrow> int
     \<Rightarrow> fault + (embeddings \<times> real list)" where
  "Update n_dim rho sigmoid_table E lu vec_v vec_error label =
     (let b = fst vec_v; lv = snd vec_v in
      if lu + n_dim \<le> length (emb_vertex E) \<and> lv + n_dim \<le> length (get_block E b)
         \<and> n_dim \<le> length vec_error
      then
        (let x = fold (\<lambda>c x. x + emb_vertex E ! (lu + c) * get_block E b ! (lv + c)) [0..<n_dim] 0
         in case FastSigmoid sigmoid_table x of
              Inl e \<Rightarrow> Inl e
            | Inr s \<Rightarrow>
               (let g = (of_int label - s) * rho;
                    vec_error' = fold (\<lambda>c ve. ve[c := ve ! c + g * get_block E b ! (lv + c)])
                                   [0..<n_dim] vec_error;
                    E' = fold (\<lambda>c E. put_block E b (lv + c)
                                        (get_block E b ! (lv + c) + g * emb_vertex E ! (lu + c)))
                           [0..<n_dim] E
                in Inr (E', vec_error')))
      else Inl OutOfBounds)"

subsection \<open>One sample of a worker thread\<close>

text \<open>\<open>Rand\<close>: the new seed and the value returned, on 64-bit unsigned integers.\<close>

definition Rand :: "64 word \<Rightarrow> 64 word \<times> nat" where
  "Rand seed =
     (let seed' = seed * 25214903917 + 11
      in (seed', unat (drop_bit 16 seed') mod neg_table_size))"

record config =
  emb_dim :: nat
  order :: int
  num_negative :: nat
  total_samples :: int
  num_threads :: int
  init_rho :: real

text \<open>The tables a worker thread reads and never writes.\<close>

record tables =
  num_edges :: nat
  edge_source_id :: "nat list"
  edge_target_id :: "nat list"
  alias_table :: "real option list \<times> nat option list"
  neg_table :: "int list"
  sigmoid_table :: "real option list"

text \<open>
  The loop over \<open>d\<close>, lines 282 to 297, from \<open>d\<close> on with \<open>m\<close> rounds left; it stops at
  \<open>d = num_negative + 1\<close>. It works on the embeddings, the error buffer and the seed.
\<close>

fun negative_sampling ::
  "config \<Rightarrow> tables \<Rightarrow> real \<Rightarrow> nat \<Rightarrow> nat \<Rightarrow> nat \<Rightarrow> nat
     \<Rightarrow> embeddings \<times> real list \<times> 64 word \<Rightarrow> fault + (embeddings \<times> real list \<times> 64 word)" where
  "negative_sampling cfg tbl rho lu v d 0 st = Inr st"
| "negative_sampling cfg tbl rho lu v d (Suc m) (E, vec_error, seed) =
     (let (seed', r) = (if d = 0 then (seed, Inr (int v, 1))
                        else (fst (Rand seed),
                              case cell (neg_table tbl) (int (snd (Rand seed))) of
                                Inl e \<Rightarrow> Inl e
                              | Inr target \<Rightarrow> Inr (target, 0)))
      in case r of
           Inl e \<Rightarrow> Inl e
         | Inr (target, label) \<Rightarrow>
            if target < 0 then Inl OutOfBounds
            else
              (let lv = nat target * emb_dim cfg;
                   r1 = (if order cfg = 1
                         then Update (emb_dim cfg) rho (sigmoid_table tbl) E lu (Emb_vertex, lv)
                                vec_error label
                         else Inr (E, vec_error))
               in case r1 of
                    Inl e \<Rightarrow> Inl e
                  | Inr (E1, vec_error1) \<Rightarrow>
                     (let r2 = (if order cfg = 2
                                then Update (emb_dim cfg) rho (sigmoid_table tbl) E1 lu (Emb_context, lv)
                                       vec_error1 label
                                else Inr (E1, vec_error1))
                      in case r2 of
                           Inl e \<Rightarrow> Inl e
                         | Inr (E2, vec_error2) \<Rightarrow>
                            negative_sampling cfg tbl rho lu v (d + 1) m (E2, vec_error2, seed'))))"

text \<open>
  Lines 274 to 298: the edge is drawn with the two uniform values \<open>r1\<close> and \<open>r2\<close>, the error
  buffer of \<open>dim\<close> cells is cleared, the loop over \<open>d\<close> runs, and the buffer is added to the
  row of \<open>u\<close>.
\<close>

definition train_sample ::
  "config \<Rightarrow> tables \<Rightarrow> real \<Rightarrow> real \<Rightarrow> real \<Rightarrow> embeddings \<times> real list \<times> 64 word
     \<Rightarrow> fault + (embeddings \<times> real list \<times> 64 word)" where
  "train_sample cfg tbl rho r1 r2 st =
     (case SampleAnEdge (alias_table tbl) (num_edges tbl) r1 r2 of
        Inl e \<Rightarrow> Inl e
      | Inr curedge \<Rightarrow>
         (case cell (edge_source_id tbl) (int curedge) of
            Inl e \<Rightarrow> Inl e
          | Inr u \<Rightarrow>
             (case cell (edge_target_id tbl) (int curedge) of
                Inl e \<Rightarrow> Inl e
              | Inr v \<Rightarrow>
                 (let lu = u * emb_dim cfg;
                      vec_error = replicate (emb_dim cfg) 0
                  in case negative_sampling cfg tbl rho lu v 0 (num_negative cfg + 1)
                            (fst st, vec_error, snd (snd st)) of
                       Inl e \<Rightarrow> Inl e
                     | Inr (E, vec_error', seed') \<Rightarrow>
                        if lu + emb_dim cfg \<le> length (emb_vertex E)
                        then Inr (fold (\<lambda>c E. put_block E Emb_vertex (c + lu)
                                                 (emb_vertex E ! (c + lu) + vec_error' ! c))
                                    [0..<emb_dim cfg] E,
                                  vec_error', seed')
                        else Inl OutOfBounds))))"

subsection \<open>The loop of a worker thread\<close>

text \<open>
  What a worker thread owns (\<open>count\<close>, \<open>last_count\<close>, \<open>seed\<close>, \<open>vec_error\<close>) and the globals
  it writes (\<open>current_sample_count\<close>, \<open>rho\<close>, the embeddings). \<open>drawn\<close> counts the values
  taken from \<open>gsl_rng_uniform\<close>, a generator of the GSL library that the model takes as a
  sequence \<open>uniform\<close>. \<open>halted\<close> is set when the thread leaves defined behaviour. The
  model is of one worker: no other thread writes the globals between two steps.
\<close>

record thread_state =
  count :: int
  last_count :: int
  seed :: "64 word"
  vec_error :: "real list"
  drawn :: nat
  current_sample_count :: int
  rho :: real
  emb :: embeddings
  halted :: "fault option"

text \<open>
  Lines 264 to 272, in the arithmetic of the source. \<open>rho\<close> and \<open>init_rho\<close> are \<open>float\<close>s.
  In line 270 the counter \<open>current_sample_count\<close> and \<open>total_samples + 1\<close> are converted to
  \<open>float\<close>, and the division, the subtraction from 1 and the product with \<open>init_rho\<close> are
  \<open>float\<close> operations. In line 271 the constant \<open>0.0001\<close> is a \<open>double\<close>, so the product
  \<open>init_rho * 0.0001\<close> and the comparison are in \<open>double\<close>, and the store converts the
  product to \<open>float\<close>. \<open>total_samples\<close> is a multiple of 1000000 (line 394), so
  \<open>total_samples + 1\<close> is not 0.
\<close>

definition rho_decay :: "config \<Rightarrow> int \<Rightarrow> real" where
  "rho_decay cfg csc =
     to_float (init_rho cfg
               * to_float (1 - to_float (to_float (of_int csc)
                                         / to_float (of_int (total_samples cfg + 1)))))"

definition rho_bound :: "config \<Rightarrow> real" where
  "rho_bound cfg = to_double (init_rho cfg * to_double 0.0001)"

text \<open>
  The stores of lines 266 to 270, which leave in the global \<open>rho\<close> the value that line 270
  computes, and the store of line 271.
\<close>

definition progress_store :: "config \<Rightarrow> thread_state \<Rightarrow> thread_state" where
  "progress_store cfg s =
     (let csc = current_sample_count s + (count s - last_count s)
      in s\<lparr>current_sample_count := csc, last_count := count s, rho := rho_decay cfg csc\<rparr>)"

definition rho_clamp :: "config \<Rightarrow> thread_state \<Rightarrow> thread_state" where
  "rho_clamp cfg s = (if rho s < rho_bound cfg then s\<lparr>rho := to_float (rho_bound cfg)\<rparr> else s)"

definition progress_update :: "config \<Rightarrow> thread_state \<Rightarrow> thread_state" where
  "progress_update cfg s =
     (if count s - last_count s > 10000 then rho_clamp cfg (progress_store cfg s) else s)"

datatype 'a step = Break 'a | Continue 'a

text \<open>
  One pass through the body of \<open>while (1)\<close>, lines 261 to 300. \<open>total_samples / num_threads\<close>
  is the division of C, which truncates.
\<close>

definition thread_step ::
  "config \<Rightarrow> tables \<Rightarrow> (nat \<Rightarrow> real) \<Rightarrow> thread_state \<Rightarrow> thread_state step" where
  "thread_step cfg tbl uniform s =
     (if num_threads cfg = 0 then Break (s\<lparr>halted := Some DivByZero\<rparr>)
      else if count s > total_samples cfg sdiv num_threads cfg + 2 then Break s
      else
        (let s1 = progress_update cfg s
         in case train_sample cfg tbl (rho s1) (uniform (drawn s1)) (uniform (drawn s1 + 1))
                   (emb s1, vec_error s1, seed s1) of
              Inl e \<Rightarrow> Break (s1\<lparr>halted := Some e\<rparr>)
            | Inr (E, vec_error', seed') \<Rightarrow>
               Continue (s1\<lparr>emb := E, vec_error := vec_error', seed := seed',
                             drawn := drawn s1 + 2, count := count s1 + 1\<rparr>)))"

function TrainLINEThread ::
  "config \<Rightarrow> tables \<Rightarrow> (nat \<Rightarrow> real) \<Rightarrow> thread_state \<Rightarrow> thread_state" where
  "TrainLINEThread cfg tbl uniform s =
     (case thread_step cfg tbl uniform s of
        Break s' \<Rightarrow> s'
      | Continue s' \<Rightarrow> TrainLINEThread cfg tbl uniform s')"
  by pat_completeness auto
termination
proof (relation "measure (\<lambda>(cfg, tbl, uniform, s).
                   nat (total_samples cfg sdiv num_threads cfg + 3 - count s))")
  show "wf (measure (\<lambda>(cfg, tbl, uniform, s).
                   nat (total_samples cfg sdiv num_threads cfg + 3 - count s)))"
    by simp
next
  fix cfg :: config and tbl :: tables and uniform :: "nat \<Rightarrow> real" and s s' :: thread_state
  assume "thread_step cfg tbl uniform s = Continue s'"
  then have "count s' = count s + 1 \<and> count s \<le> total_samples cfg sdiv num_threads cfg + 2"
    by (auto simp: thread_step_def progress_update_def progress_store_def rho_clamp_def Let_def
        split: if_splits sum.splits)
  then show "((cfg, tbl, uniform, s'), (cfg, tbl, uniform, s))
          \<in> measure (\<lambda>(cfg, tbl, uniform, s).
                 nat (total_samples cfg sdiv num_threads cfg + 3 - count s))"
    by simp
qed

declare TrainLINEThread.simps [simp del]

text \<open>The state of the worker after \<open>n\<close> passes, the passes after the exit leaving it as it is.\<close>

definition after_step :: "config \<Rightarrow> tables \<Rightarrow> (nat \<Rightarrow> real) \<Rightarrow> thread_state \<Rightarrow> thread_state" where
  "after_step cfg tbl uniform s =
     (case thread_step cfg tbl uniform s of Break s' \<Rightarrow> s' | Continue s' \<Rightarrow> s')"

subsection \<open>One sample, on rows\<close>

text \<open>
  The training step as the specification words it, on the rows of the two matrices: row
  \<open>a\<close> of a flat block \<open>M\<close> of rows of \<open>n\<close> cells, the dot product, and \<open>axpy g xs ys\<close> for
  \<open>ys + g * xs\<close>.
\<close>

definition row :: "real list \<Rightarrow> nat \<Rightarrow> nat \<Rightarrow> real list" where
  "row M n a = take n (drop (a * n) M)"

definition put_row :: "real list \<Rightarrow> nat \<Rightarrow> nat \<Rightarrow> real list \<Rightarrow> real list" where
  "put_row M n a r = take (a * n) M @ r @ drop (a * n + n) M"

definition dot :: "real list \<Rightarrow> real list \<Rightarrow> real" where
  "dot xs ys = (\<Sum>c<length xs. xs ! c * ys ! c)"

definition axpy :: "real \<Rightarrow> real list \<Rightarrow> real list \<Rightarrow> real list" where
  "axpy g xs ys = map (\<lambda>c. ys ! c + g * xs ! c) [0..<length ys]"

fun put_block_row :: "embeddings \<Rightarrow> block \<Rightarrow> nat \<Rightarrow> nat \<Rightarrow> real list \<Rightarrow> embeddings" where
  "put_block_row E Emb_vertex n a r = E\<lparr>emb_vertex := put_row (emb_vertex E) n a r\<rparr>"
| "put_block_row E Emb_context n a r = E\<lparr>emb_context := put_row (emb_context E) n a r\<rparr>"

text \<open>
  One (target, label) pair, with the learning rate \<open>lr\<close> and the sigmoid table \<open>sig\<close>: \<open>x\<close> and \<open>g\<close> are computed from the rows as they are, the
  error buffer receives \<open>g * targetVec\<close> with the target row as it was, and the target row
  becomes \<open>targetVec + g * sourceVec\<close> at once.
\<close>

definition pair_update ::
  "nat \<Rightarrow> real \<Rightarrow> real option list \<Rightarrow> nat \<Rightarrow> block \<Rightarrow> embeddings \<times> real list \<Rightarrow> nat \<times> int
     \<Rightarrow> fault + (embeddings \<times> real list)" where
  "pair_update n lr sig u b st pair =
     (let E = fst st; error = snd st; target = fst pair; label = snd pair;
          sourceVec = row (emb_vertex E) n u;
          targetVec = row (get_block E b) n target;
          x = dot sourceVec targetVec
      in case FastSigmoid sig x of
           Inl e \<Rightarrow> Inl e
         | Inr s \<Rightarrow>
            (let g = (of_int label - s) * lr
             in Inr (put_block_row E b n target (axpy g sourceVec targetVec),
                     axpy g targetVec error)))"

fun pairs_update ::
  "nat \<Rightarrow> real \<Rightarrow> real option list \<Rightarrow> nat \<Rightarrow> block \<Rightarrow> embeddings \<times> real list
     \<Rightarrow> (nat \<times> int) list \<Rightarrow> fault + (embeddings \<times> real list)" where
  "pairs_update n lr sig u b st [] = Inr st"
| "pairs_update n lr sig u b st (pair # pairs) =
     (case pair_update n lr sig u b st pair of
        Inl e \<Rightarrow> Inl e
      | Inr st' \<Rightarrow> pairs_update n lr sig u b st' pairs)"

text \<open>The targets of \<open>m\<close> negative pairs drawn from the seed \<open>sd\<close> on, and the seed after them.\<close>

fun negative_targets :: "int list \<Rightarrow> 64 word \<Rightarrow> nat \<Rightarrow> int list" where
  "negative_targets neg sd 0 = []"
| "negative_targets neg sd (Suc m) =
     neg ! snd (Rand sd) # negative_targets neg (fst (Rand sd)) m"

fun seed_after :: "64 word \<Rightarrow> nat \<Rightarrow> 64 word" where
  "seed_after sd 0 = sd"
| "seed_after sd (Suc m) = seed_after (fst (Rand sd)) m"

definition sample_pairs :: "config \<Rightarrow> tables \<Rightarrow> nat \<Rightarrow> 64 word \<Rightarrow> (nat \<times> int) list" where
  "sample_pairs cfg tbl v sd =
     (v, 1) # map (\<lambda>t. (nat t, 0)) (negative_targets (neg_table tbl) sd (num_negative cfg))"

text \<open>
  The step for the edge \<open>(u, v)\<close>: the \<open>num_negative + 1\<close> pairs in turn, from an error
  buffer of zeros, and then the one update of the row of \<open>u\<close> by the buffer.
\<close>

definition train_sample_spec ::
  "config \<Rightarrow> tables \<Rightarrow> real \<Rightarrow> nat \<Rightarrow> nat \<Rightarrow> embeddings \<Rightarrow> 64 word
     \<Rightarrow> fault + (embeddings \<times> real list \<times> 64 word)" where
  "train_sample_spec cfg tbl lr u v E sd =
     (let n = emb_dim cfg;
          b = (if order cfg = 1 then Emb_vertex else Emb_context)
      in case pairs_update n lr (sigmoid_table tbl) u b (E, replicate n 0)
                (sample_pairs cfg tbl v sd) of
           Inl e \<Rightarrow> Inl e
         | Inr (E1, error) \<Rightarrow>
            Inr (put_block_row E1 Emb_vertex n u (axpy 1 error (row (emb_vertex E1) n u)),
                 error, seed_after sd (num_negative cfg)))"

text \<open>The two blocks of the embeddings have \<open>nv\<close> rows of \<open>n\<close> cells.\<close>

definition emb_wf :: "nat \<Rightarrow> nat \<Rightarrow> embeddings \<Rightarrow> bool" where
  "emb_wf nv n E \<longleftrightarrow> length (emb_vertex E) = nv * n \<and> length (emb_context E) = nv * n"

subsection \<open>An example run\<close>

text \<open>
  The scenario of the specification: the triangle \<open>(A, B, 1.0)\<close>, \<open>(B, C, 1.0)\<close>,
  \<open>(C, A, 1.0)\<close> with \<open>dim = 2\<close>, \<open>order = 1\<close>, one negative sample, one million samples
  and one thread. The three vertices are 0, 1 and 2; the alias table is the one
  \<open>InitAliasTable\<close> builds for three equal weights; the table of negative samples is filled
  with vertex 0.
\<close>

definition example_config :: config where
  "example_config =
     \<lparr>emb_dim = 2, order = 1, num_negative = 1, total_samples = 1000000, num_threads = 1,
      init_rho = 0.025\<rparr>"

definition example_tables :: tables where
  "example_tables =
     \<lparr>num_edges = 3, edge_source_id = [0, 1, 2], edge_target_id = [1, 2, 0],
      alias_table = ([Some 1, Some 1, Some 1], [None, None, None]),
      neg_table = replicate neg_table_size 0,
      sigmoid_table = InitSigmoidTable\<rparr>"

definition example_embeddings :: embeddings where
  "example_embeddings =
     \<lparr>emb_vertex = [1/8, -1/8, 1/4, 0, -1/4, 1/8], emb_context = [0, 0, 0, 0, 0, 0]\<rparr>"

definition example_state :: thread_state where
  "example_state =
     \<lparr>count = 0, last_count = 0, seed = 0, vec_error = [0, 0], drawn = 0,
      current_sample_count = 0, rho = 0.025, emb = example_embeddings, halted = None\<rparr>"




subsection \<open>The main function\<close>

text \<open>
  \<open>InitVector\<close>, lines 181 to 194. \<open>unif_rand\<close> is the uniform generator of R, which this
  file only calls: \<open>unif j\<close> is the value of its call number \<open>j\<close>. The loop runs over the
  columns \<open>b\<close> and, inside, over the vertices \<open>a\<close>, and writes every cell of \<open>emb_vertex\<close>.
  Both allocations are tested, and a failure sets \<open>malloc_exit\<close> and returns
  (\<open>posix_memalign\<close> leaves the pointer as it was, null before the first call, which is the
  call modelled).
\<close>

definition InitVector ::
  "(alloc_site \<Rightarrow> bool) \<Rightarrow> nat \<Rightarrow> nat \<Rightarrow> (nat \<Rightarrow> real) \<Rightarrow> fault + embeddings" where
  "InitVector ok num_vertices n_dim unif =
     (if \<not> ok A_emb_vertex then Inl MallocExit
      else
        (let ev = fst (fold (\<lambda>(b, a) (m, j).
                              (m[a * n_dim + b := (unif j - 1/2) / real n_dim], Suc j))
                         (List.product [0..<n_dim] [0..<num_vertices])
                         (replicate (num_vertices * n_dim) 0, 0))
         in if \<not> ok A_emb_context then Inl MallocExit
            else Inr \<lparr>emb_vertex = ev, emb_context = replicate (num_vertices * n_dim) 0\<rparr>))"

text \<open>
  \<open>InitSigmoidTable\<close> with its allocation, which line 219 does not test: when it fails, the
  store to \<open>sigmoid_table[0]\<close> goes through the null pointer.
\<close>

definition InitSigmoidTable_alloc :: "(alloc_site \<Rightarrow> bool) \<Rightarrow> fault + real option list" where
  "InitSigmoidTable_alloc ok =
     (if \<not> ok A_sigmoid_table then Inl (NullDeref A_sigmoid_table) else Inr InitSigmoidTable)"

text \<open>
  \<open>VectorOutput\<close>, lines 354 to 365: one name and one row of \<open>emb_vertex\<close> are appended per
  vertex, in id order.
\<close>

definition VectorOutput ::
  "ClassVertex list \<Rightarrow> nat \<Rightarrow> real list \<Rightarrow> string list \<times> real list list
     \<Rightarrow> string list \<times> real list list" where
  "VectorOutput vertex n_dim ev out =
     fold (\<lambda>a (output_vertices, output_vectors).
             (output_vertices @ [name (vertex ! a)],
              output_vectors @ [map (\<lambda>b. ev ! (a * n_dim + b)) [0..<n_dim]]))
       [0..<length vertex] out"

text \<open>
  The first part of \<open>TrainLINEMain\<close>, lines 400 to 423, from the test of \<open>order\<close> to
  \<open>InitSigmoidTable\<close>. \<open>Returned\<close> is a \<open>return\<close> of the function before any thread is
  created: \<open>order\<close> is neither 1 nor 2, or \<open>malloc_exit\<close> is set after \<open>VectorReadData\<close>,
  \<open>InitAliasTable\<close> or \<open>InitVector\<close>. Nothing tests \<open>malloc_exit\<close> after \<open>InitNegTable\<close> and
  \<open>InitSigmoidTable\<close>, which do not set it. The allocations of the hash table, of the array
  \<open>vertex\<close> and of the thread handles are taken to succeed. \<open>cfg\<close> holds the globals as
  lines 384 to 395 set them from the parameters, and \<open>pw\<close> is the \<open>pow\<close> of the C library
  that \<open>InitNegTable\<close> calls.
\<close>

datatype 'a prepared = Returned | Ready 'a

definition TrainLINEMain_setup ::
  "(alloc_site \<Rightarrow> bool) \<Rightarrow> config \<Rightarrow> string list \<Rightarrow> string list \<Rightarrow> real list
     \<Rightarrow> (nat \<Rightarrow> real) \<Rightarrow> (real \<Rightarrow> real)
     \<Rightarrow> fault + (graph \<times> tables \<times> embeddings) prepared" where
  "TrainLINEMain_setup ok cfg input_u input_v input_w unif pw =
     (if order cfg \<noteq> 1 \<and> order cfg \<noteq> 2 then Inr Returned
      else
        (case VectorReadData ok InitHashTable input_u input_v input_w of
           Inl e \<Rightarrow> if e = MallocExit then Inr Returned else Inl e
         | Inr g \<Rightarrow>
        (case InitAliasTable ok (g_weight g) of
           Inl e \<Rightarrow> if e = MallocExit then Inr Returned else Inl e
         | Inr tbl \<Rightarrow>
        (case InitVector ok (length (g_vertex g)) (emb_dim cfg) unif of
           Inl e \<Rightarrow> if e = MallocExit then Inr Returned else Inl e
         | Inr E \<Rightarrow>
        (case InitNegTable pw ok (map degree (g_vertex g)) of
           Inl e \<Rightarrow> Inl e
         | Inr nt \<Rightarrow>
        (case InitSigmoidTable_alloc ok of
           Inl e \<Rightarrow> Inl e
         | Inr sg \<Rightarrow>
             Inr (Ready (g,
                    \<lparr>num_edges = length input_u, edge_source_id = g_source g,
                     edge_target_id = g_target g, alias_table = tbl, neg_table = nt,
                     sigmoid_table = sg\<rparr>,
                    E))))))))"

text \<open>
  \<open>TrainLINEMain\<close> as a function of the two output vectors \<open>out\<close>. The threads that lines
  435 and 436 create and join are the parameter \<open>threads\<close>, which gives the embeddings they
  leave; a \<open>return\<close> during the first part leaves \<open>out\<close> as it is.
\<close>

definition TrainLINEMain ::
  "(alloc_site \<Rightarrow> bool) \<Rightarrow> config \<Rightarrow> string list \<Rightarrow> string list \<Rightarrow> real list
     \<Rightarrow> (nat \<Rightarrow> real) \<Rightarrow> (real \<Rightarrow> real)
     \<Rightarrow> (tables \<Rightarrow> embeddings \<Rightarrow> fault + embeddings)
     \<Rightarrow> string list \<times> real list list \<Rightarrow> fault + string list \<times> real list list" where
  "TrainLINEMain ok cfg input_u input_v input_w unif pw threads out =
     (case TrainLINEMain_setup ok cfg input_u input_v input_w unif pw of
        Inl e \<Rightarrow> Inl e
      | Inr Returned \<Rightarrow> Inr out
      | Inr (Ready (g, tbl, E)) \<Rightarrow>
          (case threads tbl E of
             Inl e \<Rightarrow> Inl e
           | Inr E' \<Rightarrow> Inr (VectorOutput (g_vertex g) (emb_dim cfg) (emb_vertex E') out)))"

text \<open>The edge stream of the example run: \<open>(A, B, 1)\<close>, \<open>(B, C, 1)\<close>, \<open>(C, A, 1)\<close>.\<close>

definition triangle_u :: "string list" where "triangle_u = [''A'', ''B'', ''C'']"

definition triangle_v :: "string list" where "triangle_v = [''B'', ''C'', ''A'']"

definition triangle_w :: "real list" where "triangle_w = [1, 1, 1]"

section \<open>Properties\<close>

subsection \<open>Rounding to a floating-point type\<close>

lemma round_even_of_int: "round_even (of_int m) = m"
  by (simp add: round_even_def)

lemma round_even_lower: "\<lfloor>y\<rfloor> \<le> round_even y"
  by (simp add: round_even_def)

lemma round_even_upper: "round_even y \<le> \<lfloor>y\<rfloor> + 1"
  by (simp add: round_even_def)

lemma round_even_mono: "x \<le> y \<Longrightarrow> round_even x \<le> round_even y"
proof (cases "\<lfloor>x\<rfloor> = \<lfloor>y\<rfloor>")
  case True
  assume "x \<le> y"
  then have "x - of_int \<lfloor>x\<rfloor> \<le> y - of_int \<lfloor>y\<rfloor>" using True by simp
  then show ?thesis unfolding round_even_def True by auto
next
  case False
  assume "x \<le> y"
  then have "\<lfloor>x\<rfloor> \<le> \<lfloor>y\<rfloor>" by (rule floor_mono)
  with False have "\<lfloor>x\<rfloor> + 1 \<le> \<lfloor>y\<rfloor>" by simp
  with round_even_upper [of x] round_even_lower [of y] show ?thesis by linarith
qed

lemma round_even_le: "y \<le> of_int m \<Longrightarrow> round_even y \<le> m"
  using round_even_mono [of y "of_int m"] by (simp add: round_even_of_int)

lemma round_even_ge: "of_int m \<le> y \<Longrightarrow> m \<le> round_even y"
  using round_even_mono [of "of_int m" y] by (simp add: round_even_of_int)

lemma floor_log_bounds:
  assumes "0 < x"
  shows "2 powr of_int \<lfloor>log 2 x\<rfloor> \<le> x" and "x < 2 powr of_int (\<lfloor>log 2 x\<rfloor> + 1)"
proof -
  have x: "2 powr log 2 x = x" using assms by simp
  have "(2::real) powr of_int \<lfloor>log 2 x\<rfloor> \<le> 2 powr log 2 x"
    by (subst powr_le_cancel_iff) simp_all
  then show "2 powr of_int \<lfloor>log 2 x\<rfloor> \<le> x" by (simp only: x)
  have "log 2 x < of_int (\<lfloor>log 2 x\<rfloor> + 1)" by linarith
  then have "(2::real) powr log 2 x < 2 powr of_int (\<lfloor>log 2 x\<rfloor> + 1)"
    by (subst powr_less_cancel_iff) simp_all
  then show "x < 2 powr of_int (\<lfloor>log 2 x\<rfloor> + 1)" by (simp only: x)
qed


lemma ulp_exp_ge: "emin \<le> ulp_exp p emin x"
  by (simp add: ulp_exp_def)


lemma fl_round_0: "fl_round p emin 0 = 0"
  by (simp add: fl_round_def)




lemma scaled_lt:
  assumes pos: "0 < x"
  shows "x / 2 powr of_int (ulp_exp p emin x) < 2 ^ p"
proof -
  let ?e = "ulp_exp p emin x"
  have "\<lfloor>log 2 x\<rfloor> + 1 \<le> ?e + int p" using pos by (simp add: ulp_exp_def)
  then have "(2::real) powr of_int (\<lfloor>log 2 x\<rfloor> + 1) \<le> 2 powr of_int (?e + int p)"
    by (subst powr_le_cancel_iff) simp_all
  with floor_log_bounds(2) [OF pos] have "x < 2 powr of_int (?e + int p)" by linarith
  also have "\<dots> = 2 powr of_int ?e * 2 ^ p"
    by (simp add: powr_add powr_realpow)
  finally show ?thesis by (simp add: field_simps)
qed





lemma fl_round_exact:
  assumes "representable p emin x"
  shows "fl_round p emin x = x"
proof (cases "x = 0")
  case True
  then show ?thesis by (simp add: fl_round_0)
next
  case False
  from assms obtain m e where x: "x = of_int m * 2 powr of_int e"
    and m: "\<bar>m\<bar> < 2 ^ p" and e: "emin \<le> e"
    unfolding representable_def by blast
  let ?u = "ulp_exp p emin x"
  have ax: "\<bar>x\<bar> = of_int \<bar>m\<bar> * 2 powr of_int e" by (simp add: x abs_mult)
  have apos: "0 < \<bar>x\<bar>" using False by simp
  have "(of_int \<bar>m\<bar> :: real) < 2 ^ p" using m
    by (metis of_int_less_iff of_int_numeral of_int_power)
  then have "\<bar>x\<bar> < 2 ^ p * 2 powr of_int e"
    unfolding ax by (rule mult_strict_right_mono) simp
  also have "\<dots> = 2 powr of_int (int p + e)" by (simp add: powr_add powr_realpow)
  finally have "\<bar>x\<bar> < 2 powr of_int (int p + e)" .
  with floor_log_bounds(1) [OF apos] have "(2::real) powr of_int \<lfloor>log 2 \<bar>x\<bar>\<rfloor> < 2 powr of_int (int p + e)"
    by linarith
  then have "\<lfloor>log 2 \<bar>x\<bar>\<rfloor> < int p + e" by (subst (asm) powr_less_cancel_iff) simp_all
  with e have ue: "?u \<le> e" by (simp add: ulp_exp_def)
  define d where "d = nat (e - ?u)"
  have ed: "e = ?u + int d" using ue by (simp add: d_def)
  have "(2::real) powr of_int e = 2 powr of_int ?u * 2 ^ d"
    by (subst ed) (simp add: powr_add powr_realpow)
  then have sc: "\<bar>x\<bar> / 2 powr of_int ?u = of_int (\<bar>m\<bar> * 2 ^ d)"
    unfolding ax by simp
  have "fl_round p emin x = sgn x * (of_int (\<bar>m\<bar> * 2 ^ d) * 2 powr of_int ?u)"
    unfolding fl_round_def sc round_even_of_int ..
  also have "of_int (\<bar>m\<bar> * 2 ^ d) * 2 powr of_int ?u = \<bar>x\<bar>"
    using sc by (simp add: field_simps)
  finally have "fl_round p emin x = sgn x * \<bar>x\<bar>" .
  then show ?thesis by (simp only: sgn_mult_abs)
qed


lemma ulp_exp_abs: "ulp_exp p emin \<bar>x\<bar> = ulp_exp p emin x"
  by (simp add: ulp_exp_def)

lemma fl_round_representable:
  assumes p: "0 < p"
  shows "representable p emin (fl_round p emin x)"
proof (cases "x = 0")
  case True
  have "(0::real) = of_int 0 * 2 powr of_int emin \<and> \<bar>0::int\<bar> < 2 ^ p \<and> emin \<le> emin" by simp
  then show ?thesis unfolding True fl_round_0 representable_def by blast
next
  case False
  let ?u = "ulp_exp p emin x"
  let ?r = "round_even (\<bar>x\<bar> / 2 powr of_int ?u)"
  define s :: int where "s = (if 0 < x then 1 else - 1)"
  have sg: "sgn x = of_int s" using False by (simp add: s_def sgn_if)
  have as: "\<bar>s\<bar> = 1" by (simp add: s_def)
  have apos: "0 < \<bar>x\<bar>" using False by simp
  have f: "fl_round p emin x = of_int s * (of_int ?r * 2 powr of_int ?u)"
    by (simp add: fl_round_def sg)
  have "of_int 0 \<le> \<bar>x\<bar> / 2 powr of_int ?u" by simp
  then have r0: "0 \<le> ?r" by (rule round_even_ge)
  have "\<bar>x\<bar> / 2 powr of_int ?u \<le> of_int (2 ^ p)"
    using scaled_lt [OF apos, of p emin] by (simp add: ulp_exp_abs)
  then have rp: "?r \<le> 2 ^ p" by (rule round_even_le)
  show ?thesis
  proof (cases "?r = 2 ^ p")
    case False
    with rp have "?r < 2 ^ p" by simp
    with r0 as have "\<bar>s * ?r\<bar> < 2 ^ p" by (simp add: abs_mult)
    moreover have "fl_round p emin x = of_int (s * ?r) * 2 powr of_int ?u"
      unfolding f by simp
    moreover have "emin \<le> ?u" by (rule ulp_exp_ge)
    ultimately show ?thesis unfolding representable_def by blast
  next
    case True
    obtain q where q: "p = Suc q" using p by (cases p) simp_all
    have "\<bar>s * 2 ^ q\<bar> < (2::int) ^ p" using as by (simp add: abs_mult q)
    moreover have "fl_round p emin x = of_int (s * 2 ^ q) * 2 powr of_int (?u + 1)"
      unfolding f True by (simp add: q powr_add)
    moreover have "emin \<le> ?u + 1" using ulp_exp_ge [of emin p x] by simp
    ultimately show ?thesis unfolding representable_def by blast
  qed
qed

lemma fl_round_idem: "0 < p \<Longrightarrow> fl_round p emin (fl_round p emin x) = fl_round p emin x"
  by (rule fl_round_exact [OF fl_round_representable])


lemma representable_of_int:
  "\<bar>m\<bar> < 2 ^ p \<Longrightarrow> emin \<le> 0 \<Longrightarrow> representable p emin (of_int m)"
  unfolding representable_def by (intro exI [of _ m] exI [of _ 0]) simp

lemma representable_powr:
  "0 < p \<Longrightarrow> emin \<le> e \<Longrightarrow> representable p emin (2 powr of_int e)"
  unfolding representable_def by (intro exI [of _ 1] exI [of _ e]) simp




lemma to_float_0: "to_float 0 = 0"
  by (simp add: to_float_def fl_round_0)


lemma to_float_of_int: "\<bar>m\<bar> < 2 ^ 24 \<Longrightarrow> to_float (of_int m) = of_int m"
  unfolding to_float_def by (rule fl_round_exact [OF representable_of_int]) simp_all


lemma to_float_1: "to_float 1 = 1"
  using to_float_of_int [of 1] by simp



lemma to_double_idem: "to_double (to_double x) = to_double x"
  unfolding to_double_def by (rule fl_round_idem) simp
















subsection \<open>Loops over an index range\<close>

lemma fold_upd_length:
  "length (fold (\<lambda>k t. t[k := f k]) ks t0) = length t0"
  by (induction ks arbitrary: t0) simp_all

lemma fold_upd_nth:
  "i < length t0 \<Longrightarrow>
   fold (\<lambda>k t. t[k := f k]) [0..<n] t0 ! i = (if i < n then f i else t0 ! i)"
proof (induction n)
  case 0
  then show ?case by simp
next
  case (Suc n)
  then show ?case
    by (auto simp: fold_upd_length nth_list_update less_Suc_eq)
qed

lemma fold_add_nth:
  "fold (\<lambda>k s. s + f k) [0..<n] (a :: real) = a + (\<Sum>k<n. f k)"
  by (induction n) simp_all

subsection \<open>The vertex index\<close>

text \<open>
  Linear probing finds a free cell, or the cell of a name, as long as the cells on the way
  are taken; the invariant \<open>hash_inv\<close> gives this for every vertex, and a table with fewer
  vertices than cells has a free cell.
\<close>

lemma probe_free_find:
  "k < fuel \<Longrightarrow> tab ((a + k) mod hash_table_size) = - 1 \<Longrightarrow>
   \<forall>j<k. tab ((a + j) mod hash_table_size) \<noteq> - 1 \<Longrightarrow>
   probe_free fuel tab (a mod hash_table_size) = Some ((a + k) mod hash_table_size)"
proof (induction fuel arbitrary: a k)
  case 0
  then show ?case by simp
next
  case (Suc fuel)
  show ?case
  proof (cases k)
    case 0
    with Suc.prems show ?thesis by simp
  next
    case (Suc k')
    from Suc.prems(3) have here: "tab (a mod hash_table_size) \<noteq> - 1"
      using Suc by (metis add.right_neutral zero_less_Suc)
    have nxt: "Suc (a mod hash_table_size) mod hash_table_size = Suc a mod hash_table_size"
      by (rule mod_Suc_eq)
    have 1: "k' < fuel" using Suc.prems(1) Suc by simp
    have 2: "tab ((a + 1 + k') mod hash_table_size) = - 1"
      using Suc.prems(2) Suc by simp
    have 3: "\<forall>j<k'. tab ((a + 1 + j) mod hash_table_size) \<noteq> - 1"
    proof (intro allI impI)
      fix j assume "j < k'"
      then have "Suc j < k" using Suc by simp
      with Suc.prems(3) show "tab ((a + 1 + j) mod hash_table_size) \<noteq> - 1" by fastforce
    qed
    from Suc.IH [OF 1 2 3] show ?thesis
      using here by (simp add: nxt Suc)
  qed
qed

lemma probe_key_absent:
  "k < fuel \<Longrightarrow> tab ((a + k) mod hash_table_size) = - 1 \<Longrightarrow>
   \<forall>j<k. tab ((a + j) mod hash_table_size) \<noteq> - 1 \<Longrightarrow>
   \<forall>b. tab b = - 1 \<or> (0 \<le> tab b \<and> tab b < int (length vertex)) \<Longrightarrow>
   key \<notin> name ` set vertex \<Longrightarrow>
   probe_key fuel vertex tab key (a mod hash_table_size) = Inr (- 1)"
proof (induction fuel arbitrary: a k)
  case 0
  then show ?case by simp
next
  case (Suc fuel)
  show ?case
  proof (cases k)
    case 0
    with Suc.prems show ?thesis by simp
  next
    case (Suc k')
    from Suc.prems(3) have here: "tab (a mod hash_table_size) \<noteq> - 1"
      using Suc by (metis add.right_neutral zero_less_Suc)
    with Suc.prems(4) have valid: "0 \<le> tab (a mod hash_table_size)"
      "tab (a mod hash_table_size) < int (length vertex)" by metis+
    then have "vertex ! nat (tab (a mod hash_table_size)) \<in> set vertex" by simp
    with Suc.prems(5) have diff: "key \<noteq> name (vertex ! nat (tab (a mod hash_table_size)))"
      by blast
    have nxt: "Suc (a mod hash_table_size) mod hash_table_size = Suc a mod hash_table_size"
      by (rule mod_Suc_eq)
    have 1: "k' < fuel" using Suc.prems(1) Suc by simp
    have 2: "tab ((a + 1 + k') mod hash_table_size) = - 1"
      using Suc.prems(2) Suc by simp
    have 3: "\<forall>j<k'. tab ((a + 1 + j) mod hash_table_size) \<noteq> - 1"
    proof (intro allI impI)
      fix j assume "j < k'"
      then have "Suc j < k" using Suc by simp
      with Suc.prems(3) show "tab ((a + 1 + j) mod hash_table_size) \<noteq> - 1" by fastforce
    qed
    from Suc.IH [OF 1 2 3 Suc.prems(4,5)] show ?thesis
      using here valid diff by (simp add: nxt)
  qed
qed

lemma probe_key_present:
  "k < fuel \<Longrightarrow> tab ((a + k) mod hash_table_size) = int i \<Longrightarrow> i < length vertex \<Longrightarrow>
   \<forall>j<k. tab ((a + j) mod hash_table_size) \<noteq> - 1 \<Longrightarrow>
   \<forall>b. tab b = - 1 \<or> (0 \<le> tab b \<and> tab b < int (length vertex)) \<Longrightarrow>
   distinct (map name vertex) \<Longrightarrow>
   probe_key fuel vertex tab (name (vertex ! i)) (a mod hash_table_size) = Inr (int i)"
proof (induction fuel arbitrary: a k)
  case 0
  then show ?case by simp
next
  case (Suc fuel)
  show ?case
  proof (cases k)
    case 0
    with Suc.prems show ?thesis by simp
  next
    case (Suc k')
    from Suc.prems(4) have here: "tab (a mod hash_table_size) \<noteq> - 1"
      using Suc by (metis add.right_neutral zero_less_Suc)
    with Suc.prems(5) have valid: "0 \<le> tab (a mod hash_table_size)"
      "tab (a mod hash_table_size) < int (length vertex)" by metis+
    have nxt: "Suc (a mod hash_table_size) mod hash_table_size = Suc a mod hash_table_size"
      by (rule mod_Suc_eq)
    have 1: "k' < fuel" using Suc.prems(1) Suc by simp
    have 2: "tab ((a + 1 + k') mod hash_table_size) = int i"
      using Suc.prems(2) Suc by simp
    have 3: "\<forall>j<k'. tab ((a + 1 + j) mod hash_table_size) \<noteq> - 1"
    proof (intro allI impI)
      fix j assume "j < k'"
      then have "Suc j < k" using Suc by simp
      with Suc.prems(4) show "tab ((a + 1 + j) mod hash_table_size) \<noteq> - 1" by fastforce
    qed
    note IH = Suc.IH [OF 1 2 Suc.prems(3) 3 Suc.prems(5,6)]
    show ?thesis
    proof (cases "name (vertex ! i) = name (vertex ! nat (tab (a mod hash_table_size)))")
      case True
      let ?j = "nat (tab (a mod hash_table_size))"
      have "?j < length vertex" using valid by simp
      with True Suc.prems(3,6) have "i = ?j"
        by (metis distinct_conv_nth length_map nth_map)
      then have "tab (a mod hash_table_size) = int i" using valid by simp
      then show ?thesis using here valid True by simp
    next
      case False
      with IH show ?thesis using here valid by (simp add: nxt)
    qed
  qed
qed


lemma hash_table_size_pos: "0 < hash_table_size"
  by (simp add: hash_table_size_def)

lemma Hash_lt: "Hash key < hash_table_size"
  by (simp add: Hash_def hash_table_size_pos)

lemma Hash_mod: "Hash key mod hash_table_size = Hash key"
  by (simp add: Hash_lt)

lemma free_slot:
  assumes sub: "{a. tab a \<noteq> - 1} \<subseteq> {..<hash_table_size}"
    and card: "card {a. tab a \<noteq> - 1} < hash_table_size"
  shows "\<exists>k < hash_table_size. tab ((h + k) mod hash_table_size) = - 1
           \<and> (\<forall>j<k. tab ((h + j) mod hash_table_size) \<noteq> - 1)"
proof -
  let ?S = "hash_table_size"
  have "{a. tab a \<noteq> - 1} \<noteq> {..<?S}"
  proof
    assume "{a. tab a \<noteq> - 1} = {..<?S}"
    then have "card {a. tab a \<noteq> - 1} = ?S" by (simp only: card_lessThan)
    with card show False by simp
  qed
  with sub obtain a where a: "a < ?S" "tab a = - 1" by blast
  define k0 where "k0 = (a + (?S - h mod ?S)) mod ?S"
  have hm: "h mod ?S < ?S" using hash_table_size_pos by simp
  have "(h + k0) mod ?S = (h + (a + (?S - h mod ?S))) mod ?S"
    unfolding k0_def by (rule mod_add_right_eq)
  also have "\<dots> = (h mod ?S + (a + (?S - h mod ?S))) mod ?S"
    by (rule mod_add_left_eq [symmetric])
  also have "h mod ?S + (a + (?S - h mod ?S)) = a + ?S" using hm by linarith
  also have "(a + ?S) mod ?S = a" using a(1) by simp
  finally have "(h + k0) mod ?S = a" .
  then have hit: "tab ((h + k0) mod ?S) = - 1" using a(2) by (simp only:)
  have k0: "k0 < ?S" unfolding k0_def using hash_table_size_pos by simp
  define P where "P k \<longleftrightarrow> tab ((h + k) mod ?S) = - 1" for k
  have "P k0" using hit by (simp add: P_def)
  then obtain k where k: "P k" "\<forall>j<k. \<not> P j"
    using exists_least_iff [of P] by blast
  have "k \<le> k0" using k(2) \<open>P k0\<close> by (meson not_le)
  with k0 have "k < ?S" by simp
  moreover from k have "tab ((h + k) mod ?S) = - 1" "\<forall>j<k. tab ((h + j) mod ?S) \<noteq> - 1"
    by (simp_all add: P_def)
  ultimately show ?thesis by blast
qed

lemma SearchHashTable_present:
  assumes inv: "hash_inv vertex tab" and i: "i < length vertex"
  shows "SearchHashTable vertex tab (name (vertex ! i)) = Inr (int i)"
proof -
  from inv i obtain k where k: "k < hash_table_size"
    "tab ((Hash (name (vertex ! i)) + k) mod hash_table_size) = int i"
    "\<forall>j<k. tab ((Hash (name (vertex ! i)) + j) mod hash_table_size) \<noteq> - 1"
    unfolding hash_inv_def by blast
  from inv have rng: "\<forall>b. tab b = - 1 \<or> (0 \<le> tab b \<and> tab b < int (length vertex))"
    and dist: "distinct (map name vertex)"
    unfolding hash_inv_def by blast+
  from probe_key_present [OF k(1,2) i k(3) rng dist]
  show ?thesis by (simp add: SearchHashTable_def Hash_mod)
qed

lemma SearchHashTable_absent:
  assumes inv: "hash_inv vertex tab" and room: "length vertex < hash_table_size"
    and new: "key \<notin> name ` set vertex"
  shows "SearchHashTable vertex tab key = Inr (- 1)"
proof -
  from inv have rng: "\<forall>b. tab b = - 1 \<or> (0 \<le> tab b \<and> tab b < int (length vertex))"
    and sub: "{a. tab a \<noteq> - 1} \<subseteq> {..<hash_table_size}"
    and card: "card {a. tab a \<noteq> - 1} = length vertex"
    unfolding hash_inv_def by blast+
  from free_slot [OF sub, of "Hash key"] card room obtain k where k: "k < hash_table_size"
    "tab ((Hash key + k) mod hash_table_size) = - 1"
    "\<forall>j<k. tab ((Hash key + j) mod hash_table_size) \<noteq> - 1"
    by auto
  from probe_key_absent [OF k rng new]
  show ?thesis by (simp add: SearchHashTable_def Hash_mod)
qed


lemma AddVertex_new:
  assumes inv: "hash_inv vertex tab" and room: "length vertex < hash_table_size"
    and new: "nm \<notin> name ` set vertex" and short: "length nm < MAX_STRING"
  shows "\<exists>tab'. AddVertex nm (vertex, tab)
                  = Inr (int (length vertex), vertex @ [\<lparr>degree = 0, name = nm\<rparr>], tab')
               \<and> hash_inv (vertex @ [\<lparr>degree = 0, name = nm\<rparr>]) tab'"
proof -
  let ?S = "hash_table_size"
  let ?nv = "length vertex"
  let ?V = "vertex @ [\<lparr>degree = 0, name = nm\<rparr>]"
  from inv have dist: "distinct (map name vertex)"
    and rng: "\<forall>b. tab b = - 1 \<or> (0 \<le> tab b \<and> tab b < int ?nv)"
    and sub: "{a. tab a \<noteq> - 1} \<subseteq> {..<?S}"
    and card: "card {a. tab a \<noteq> - 1} = ?nv"
    and slots: "\<forall>i < ?nv. \<exists>k < ?S.
           tab ((Hash (name (vertex ! i)) + k) mod ?S) = int i
           \<and> (\<forall>j<k. tab ((Hash (name (vertex ! i)) + j) mod ?S) \<noteq> - 1)"
    unfolding hash_inv_def by blast+
  from free_slot [OF sub, of "Hash nm"] card room obtain k where k: "k < ?S"
    "tab ((Hash nm + k) mod ?S) = - 1"
    "\<forall>j<k. tab ((Hash nm + j) mod ?S) \<noteq> - 1"
    by auto
  define addr where "addr = (Hash nm + k) mod ?S"
  define T where "T = tab(addr := int ?nv)"
  have addr_lt: "addr < ?S" unfolding addr_def using hash_table_size_pos by simp
  have addr_free: "tab addr = - 1" using k(2) by (simp add: addr_def)
  have pf: "probe_free ?S tab (Hash nm) = Some addr"
    using probe_free_find [OF k] by (simp add: Hash_mod addr_def)
  have tk: "take (length nm) nm = nm" by simp
  have add: "AddVertex nm (vertex, tab) = Inr (int ?nv, ?V, T)"
    using short by (simp add: AddVertex_def InsertHashTable_def pf Let_def T_def)
  have T_other: "\<And>a. a \<noteq> addr \<Longrightarrow> T a = tab a" by (simp add: T_def)
  have T_addr: "T addr = int ?nv" by (simp add: T_def)
  have T_occ: "\<And>a. tab a \<noteq> - 1 \<Longrightarrow> T a \<noteq> - 1" by (simp add: T_def)
  have c1: "distinct (map name ?V)" using dist new by auto
  have c2: "\<forall>b. T b = - 1 \<or> (0 \<le> T b \<and> T b < int (length ?V))"
  proof
    fix b
    show "T b = - 1 \<or> (0 \<le> T b \<and> T b < int (length ?V))"
    proof (cases "b = addr")
      case True
      then show ?thesis by (simp add: T_addr)
    next
      case False
      with rng [rule_format, of b] show ?thesis by (auto simp: T_other)
    qed
  qed
  have occ: "{a. T a \<noteq> - 1} = insert addr {a. tab a \<noteq> - 1}"
    by (auto simp: T_def)
  have c3: "{a. T a \<noteq> - 1} \<subseteq> {..<?S}" unfolding occ using sub addr_lt by simp
  have fin: "finite {a. tab a \<noteq> - 1}" using sub by (rule finite_subset) simp
  have c4: "card {a. T a \<noteq> - 1} = length ?V"
    unfolding occ using fin addr_free card by simp
  have c5: "\<forall>i < length ?V. \<exists>k < ?S.
           T ((Hash (name (?V ! i)) + k) mod ?S) = int i
           \<and> (\<forall>j<k. T ((Hash (name (?V ! i)) + j) mod ?S) \<noteq> - 1)"
  proof (intro allI impI)
    fix i assume "i < length ?V"
    then consider "i < ?nv" | "i = ?nv" by fastforce
    then show "\<exists>k < ?S. T ((Hash (name (?V ! i)) + k) mod ?S) = int i
           \<and> (\<forall>j<k. T ((Hash (name (?V ! i)) + j) mod ?S) \<noteq> - 1)"
    proof cases
      case 1
      then have nm_i: "name (?V ! i) = name (vertex ! i)" by (simp add: nth_append)
      from slots 1 obtain ki where ki: "ki < ?S"
        "tab ((Hash (name (vertex ! i)) + ki) mod ?S) = int i"
        "\<forall>j<ki. tab ((Hash (name (vertex ! i)) + j) mod ?S) \<noteq> - 1"
        by blast
      from ki(2) addr_free have "(Hash (name (vertex ! i)) + ki) mod ?S \<noteq> addr" by auto
      then have "T ((Hash (name (vertex ! i)) + ki) mod ?S) = int i"
        using ki(2) by (simp add: T_other)
      moreover have "\<forall>j<ki. T ((Hash (name (vertex ! i)) + j) mod ?S) \<noteq> - 1"
        using ki(3) T_occ by blast
      ultimately show ?thesis unfolding nm_i using ki(1) by blast
    next
      case 2
      then have nm_i: "name (?V ! i) = nm" by simp
      have "T ((Hash nm + k) mod ?S) = int i"
        using T_addr 2 by (simp add: addr_def)
      moreover have "\<forall>j<k. T ((Hash nm + j) mod ?S) \<noteq> - 1"
        using k(3) T_occ by blast
      ultimately show ?thesis unfolding nm_i using k(1) by blast
    qed
  qed
  have "hash_inv ?V T"
    unfolding hash_inv_def using c1 c2 c3 c4 c5 by blast
  with add show ?thesis by blast
qed

lemma hash_inv_names:
  "map name vertex' = map name vertex \<Longrightarrow> hash_inv vertex' tab = hash_inv vertex tab"
proof -
  assume eq: "map name vertex' = map name vertex"
  then have len: "length vertex' = length vertex" by (metis length_map)
  have nth: "\<And>i. i < length vertex \<Longrightarrow> name (vertex' ! i) = name (vertex ! i)"
    using eq len by (metis nth_map)
  show ?thesis
    unfolding hash_inv_def eq len using nth by auto
qed


text \<open>
  The position of a name in a list of distinct names, and the list of first occurrences.
\<close>

lemma index_of_nth: "distinct xs \<Longrightarrow> i < length xs \<Longrightarrow> index_of xs (xs ! i) = i"
proof (induction xs arbitrary: i)
  case Nil
  then show ?case by simp
next
  case (Cons x xs)
  show ?case
  proof (cases i)
    case 0
    then show ?thesis by (simp add: index_of_def)
  next
    case (Suc i')
    with Cons.prems have "xs ! i' \<in> set xs" "x \<notin> set xs" by simp_all
    then have "x \<noteq> xs ! i'" by blast
    with Cons Suc show ?thesis by (simp add: index_of_def)
  qed
qed

lemma index_of_append_new: "x \<notin> set xs \<Longrightarrow> index_of (xs @ [x]) x = length xs"
  by (induction xs) (auto simp: index_of_def)

lemma index_of_append_in: "x \<in> set xs \<Longrightarrow> index_of (xs @ ys) x = index_of xs x"
  by (induction xs) (auto simp: index_of_def)

lemma index_of_lt: "x \<in> set xs \<Longrightarrow> index_of xs x < length xs"
  by (induction xs) (auto simp: index_of_def)

lemma nth_index_of: "x \<in> set xs \<Longrightarrow> xs ! index_of xs x = x"
  by (induction xs) (auto simp: index_of_def)

text \<open>
  \<open>Insert\<close> on a table that satisfies the invariant: a name that is present keeps its id
  and the index is unchanged; a new name gets the number of vertices as its id.
\<close>

lemma Insert_present:
  assumes inv: "hash_inv vertex tab" and old: "nm \<in> set (map name vertex)"
  shows "Insert nm (vertex, tab) = Inr (int (index_of (map name vertex) nm), vertex, tab)"
proof -
  let ?i = "index_of (map name vertex) nm"
  have i: "?i < length vertex" using index_of_lt [OF old] by simp
  have nm: "name (vertex ! ?i) = nm" using nth_index_of [OF old] i by simp
  from SearchHashTable_present [OF inv i]
  show ?thesis by (simp add: Insert_def nm)
qed

lemma Insert_new:
  assumes inv: "hash_inv vertex tab" and room: "length vertex < hash_table_size"
    and new: "nm \<notin> set (map name vertex)" and short: "length nm < MAX_STRING"
  shows "\<exists>tab'. Insert nm (vertex, tab)
                  = Inr (int (length vertex), vertex @ [\<lparr>degree = 0, name = nm\<rparr>], tab')
               \<and> hash_inv (vertex @ [\<lparr>degree = 0, name = nm\<rparr>]) tab'"
proof -
  from new have new': "nm \<notin> name ` set vertex" by simp
  from SearchHashTable_absent [OF inv room new'] AddVertex_new [OF inv room new' short]
  show ?thesis by (simp add: Insert_def)
qed

lemma add_endpoint_spec:
  assumes inv: "hash_inv vertex tab" and short: "length nm < MAX_STRING"
    and room: "length (note_name nm (map name vertex)) < hash_table_size"
  shows "\<exists>vertex' tab'. add_endpoint nm w (vertex, tab)
              = Inr (index_of (map name vertex') nm, vertex', tab')
           \<and> hash_inv vertex' tab'
           \<and> map name vertex' = note_name nm (map name vertex)"
proof (cases "nm \<in> set (map name vertex)")
  case True
  let ?i = "index_of (map name vertex) nm"
  let ?V = "vertex[?i := (vertex ! ?i)\<lparr>degree := to_double (degree (vertex ! ?i) + w)\<rparr>]"
  have i: "?i < length vertex" using index_of_lt [OF True] by simp
  have names: "map name ?V = map name vertex"
    using i by (simp add: map_update list_update_same_conv)
  have a: "add_endpoint nm w (vertex, tab) = Inr (index_of (map name ?V) nm, ?V, tab)"
    unfolding names using i by (simp add: add_endpoint_def Insert_present [OF inv True])
  have b: "hash_inv ?V tab" using inv by (simp only: hash_inv_names [OF names])
  have c: "map name ?V = note_name nm (map name vertex)"
    using True by (simp only: names note_name_def if_True)
  show ?thesis by (intro exI [of _ ?V] exI [of _ tab] conjI a b c)
next
  case False
  let ?nv = "length vertex"
  let ?W = "vertex @ [\<lparr>degree = 0, name = nm\<rparr>]"
  let ?V = "?W[?nv := (?W ! ?nv)\<lparr>degree := to_double (degree (?W ! ?nv) + w)\<rparr>]"
  from room False have room': "?nv < hash_table_size" by (simp add: note_name_def)
  from Insert_new [OF inv room' False short] obtain tab' where
    ins: "Insert nm (vertex, tab) = Inr (int ?nv, ?W, tab')" and inv': "hash_inv ?W tab'"
    by blast
  have names: "map name ?V = map name ?W"
    by (simp add: map_update list_update_same_conv)
  have names0: "map name ?W = map name vertex @ [nm]" by simp
  have ix: "index_of (map name ?V) nm = ?nv"
    unfolding names names0 using index_of_append_new [OF False] by simp
  have a: "add_endpoint nm w (vertex, tab) = Inr (index_of (map name ?V) nm, ?V, tab')"
    unfolding ix by (simp add: add_endpoint_def ins)
  have b: "hash_inv ?V tab'" using inv' by (simp only: hash_inv_names [OF names])
  have c: "map name ?V = note_name nm (map name vertex)"
    using False by (simp only: names names0 note_name_def if_False)
  show ?thesis by (intro exI [of _ ?V] exI [of _ tab'] conjI a b c)
qed


lemma note_name_old: "x \<in> set seen \<Longrightarrow> note_name x seen = seen"
  by (simp add: note_name_def)

lemma note_name_new: "x \<notin> set seen \<Longrightarrow> note_name x seen = seen @ [x]"
  by (simp add: note_name_def)

lemma fold_note_prefix: "\<exists>r. fold note_name xs seen = seen @ r"
proof (induction xs arbitrary: seen)
  case Nil
  then show ?case by simp
next
  case (Cons x xs)
  from Cons.IH [of "note_name x seen"] obtain r where
    r: "fold note_name xs (note_name x seen) = note_name x seen @ r" by blast
  have "fold note_name (x # xs) seen = note_name x seen @ r" by (simp add: r)
  then show ?case by (cases "x \<in> set seen") (simp_all add: note_name_old note_name_new)
qed

lemma fold_note_length: "length seen \<le> length (fold note_name xs seen)"
  using fold_note_prefix [of xs seen] by (elim exE) simp

lemma note_name_mem: "nm \<in> set (note_name nm seen)"
  by (simp add: note_name_def)

lemma index_of_fold_note:
  assumes "nm \<in> set seen"
  shows "index_of (fold note_name xs seen) nm = index_of seen nm"
proof -
  from fold_note_prefix [of xs seen] obtain r where "fold note_name xs seen = seen @ r" by blast
  then show ?thesis using index_of_append_in [OF assms] by simp
qed

lemma note_name_set: "set (note_name x seen) = insert x (set seen)"
  by (auto simp: note_name_def)

text \<open>
  The loop of \<open>VectorReadData\<close> extends the list of names by the first occurrences of the
  names it reads, and records for every edge the positions of its two names in that list.
\<close>

lemma read_edges_spec:
  assumes inv: "hash_inv (g_vertex g) (g_hash g)"
    and rng: "\<forall>k\<in>set ks. k < length input_u \<and> k < length input_v \<and> k < length input_w"
    and short: "\<forall>k\<in>set ks. length (c_str (input_u ! k)) < MAX_STRING
                          \<and> length (c_str (input_v ! k)) < MAX_STRING"
    and room: "length (fold note_name
                 (concat (map (\<lambda>k. [c_str (input_u ! k), c_str (input_v ! k)]) ks))
                 (map name (g_vertex g))) < hash_table_size"
  shows "\<exists>g'. read_edges input_u input_v input_w ks g = Inr g'
           \<and> hash_inv (g_vertex g') (g_hash g')
           \<and> map name (g_vertex g')
               = fold note_name (concat (map (\<lambda>k. [c_str (input_u ! k), c_str (input_v ! k)]) ks))
                   (map name (g_vertex g))
           \<and> g_source g' = g_source g
                 @ map (\<lambda>k. index_of (map name (g_vertex g')) (c_str (input_u ! k))) ks
           \<and> g_target g' = g_target g
                 @ map (\<lambda>k. index_of (map name (g_vertex g')) (c_str (input_v ! k))) ks
           \<and> g_weight g' = g_weight g @ map (\<lambda>k. input_w ! k) ks"
  using inv rng short room
proof (induction ks arbitrary: g)
  case Nil
  then show ?case by simp
next
  case (Cons k ks)
  let ?u = "c_str (input_u ! k)" and ?v = "c_str (input_v ! k)" and ?w = "input_w ! k"
  let ?rest = "concat (map (\<lambda>k. [c_str (input_u ! k), c_str (input_v ! k)]) ks)"
  let ?N0 = "map name (g_vertex g)"
  let ?N1 = "note_name ?u ?N0"
  let ?N2 = "note_name ?v ?N1"
  have k: "k < length input_u" "k < length input_v" "k < length input_w"
    using Cons.prems(2) by simp_all
  have su: "length ?u < MAX_STRING" and sv: "length ?v < MAX_STRING"
    using Cons.prems(3) by simp_all
  have room: "length (fold note_name ?rest ?N2) < hash_table_size"
    using Cons.prems(4) by simp
  have r2: "length ?N2 < hash_table_size"
    using fold_note_length [of ?N2 ?rest] room by linarith
  have r1: "length ?N1 < hash_table_size"
    using fold_note_length [of ?N1 "[?v]"] r2 by simp
  from add_endpoint_spec [OF Cons.prems(1) su r1, of ?w] obtain vertex1 tab1 where
    e1: "add_endpoint ?u ?w (g_vertex g, g_hash g)
           = Inr (index_of (map name vertex1) ?u, vertex1, tab1)"
    and i1: "hash_inv vertex1 tab1" and n1: "map name vertex1 = ?N1"
    by (elim exE conjE)
  have r2': "length (note_name ?v (map name vertex1)) < hash_table_size"
    using r2 by (simp only: n1)
  from add_endpoint_spec [OF i1 sv r2', of ?w] obtain vertex2 tab2 where
    e2: "add_endpoint ?v ?w (vertex1, tab1)
           = Inr (index_of (map name vertex2) ?v, vertex2, tab2)"
    and i2: "hash_inv vertex2 tab2" and n2': "map name vertex2 = note_name ?v (map name vertex1)"
    by (elim exE conjE)
  have n2: "map name vertex2 = ?N2" using n2' by (simp only: n1)
  let ?g = "g\<lparr>g_vertex := vertex2, g_hash := tab2,
               g_source := g_source g @ [index_of (map name vertex1) ?u],
               g_target := g_target g @ [index_of (map name vertex2) ?v],
               g_weight := g_weight g @ [?w]\<rparr>"
  have step: "read_edges input_u input_v input_w (k # ks) g
                = read_edges input_u input_v input_w ks ?g"
    using k su sv by (simp add: cell_def strcpy_name_def e1 e2)
  have inv': "hash_inv (g_vertex ?g) (g_hash ?g)" using i2 by simp
  have rng': "\<forall>k\<in>set ks. k < length input_u \<and> k < length input_v \<and> k < length input_w"
    using Cons.prems(2) by simp
  have short': "\<forall>k\<in>set ks. length (c_str (input_u ! k)) < MAX_STRING
                          \<and> length (c_str (input_v ! k)) < MAX_STRING"
    using Cons.prems(3) by simp
  have room': "length (fold note_name ?rest (map name (g_vertex ?g))) < hash_table_size"
    using room by (simp add: n2)
  from Cons.IH [OF inv' rng' short' room'] obtain g' where
    IH: "read_edges input_u input_v input_w ks ?g = Inr g'
      \<and> hash_inv (g_vertex g') (g_hash g')
      \<and> map name (g_vertex g') = fold note_name ?rest (map name (g_vertex ?g))
      \<and> g_source g' = g_source ?g
                 @ map (\<lambda>k. index_of (map name (g_vertex g')) (c_str (input_u ! k))) ks
      \<and> g_target g' = g_target ?g
                 @ map (\<lambda>k. index_of (map name (g_vertex g')) (c_str (input_v ! k))) ks
      \<and> g_weight g' = g_weight ?g @ map (\<lambda>k. input_w ! k) ks" ..
  note run = IH [THEN conjunct1]
    and hinv = IH [THEN conjunct2, THEN conjunct1]
    and names = IH [THEN conjunct2, THEN conjunct2, THEN conjunct1]
    and src = IH [THEN conjunct2, THEN conjunct2, THEN conjunct2, THEN conjunct1]
    and tgt = IH [THEN conjunct2, THEN conjunct2, THEN conjunct2, THEN conjunct2, THEN conjunct1]
    and wts = IH [THEN conjunct2, THEN conjunct2, THEN conjunct2, THEN conjunct2, THEN conjunct2]
  have names': "map name (g_vertex g') = fold note_name ?rest ?N2"
    using names by (simp add: n2)
  have uin1: "?u \<in> set ?N1" by (rule note_name_mem)
  have vin2: "?v \<in> set ?N2" by (rule note_name_mem)
  have N2: "?N2 = fold note_name [?v] ?N1" by simp
  have "index_of (map name (g_vertex g')) ?u = index_of ?N2 ?u"
    unfolding names' using uin1 by (intro index_of_fold_note) (simp add: note_name_set)
  also have "\<dots> = index_of ?N1 ?u"
    unfolding N2 by (rule index_of_fold_note [OF uin1])
  finally have iu: "index_of (map name vertex1) ?u = index_of (map name (g_vertex g')) ?u"
    by (simp only: n1)
  have "index_of (map name (g_vertex g')) ?v = index_of ?N2 ?v"
    unfolding names' by (rule index_of_fold_note [OF vin2])
  then have iv: "index_of (map name vertex2) ?v = index_of (map name (g_vertex g')) ?v"
    by (simp only: n2)
  have a: "read_edges input_u input_v input_w (k # ks) g = Inr g'"
    by (simp only: step run)
  have b: "map name (g_vertex g')
             = fold note_name (concat (map (\<lambda>k. [c_str (input_u ! k), c_str (input_v ! k)]) (k # ks)))
                 (map name (g_vertex g))"
    using names' by simp
  have c: "g_source g' = g_source g
             @ map (\<lambda>k. index_of (map name (g_vertex g')) (c_str (input_u ! k))) (k # ks)"
    using src iu by simp
  have d: "g_target g' = g_target g
             @ map (\<lambda>k. index_of (map name (g_vertex g')) (c_str (input_v ! k))) (k # ks)"
    using tgt iv by simp
  have e: "g_weight g' = g_weight g @ map (\<lambda>k. input_w ! k) (k # ks)"
    using wts by simp
  show ?case by (intro exI [of _ g'] conjI a hinv b c d e)
qed

lemma hash_inv_init: "hash_inv [] InitHashTable"
  by (simp add: hash_inv_def InitHashTable_def)

lemma stream_names_nth:
  assumes "length input_v = length input_u"
  shows "stream_names input_u input_v
           = concat (map (\<lambda>k. [c_str (input_u ! k), c_str (input_v ! k)]) [0..<length input_u])"
proof -
  have "zip input_u input_v = map (\<lambda>k. (input_u ! k, input_v ! k)) [0..<length input_u]"
    using assms by (intro nth_equalityI) simp_all
  then show ?thesis by (simp add: stream_names_def comp_def)
qed


lemma VectorReadData_names:
  assumes ok: "ok A_edge_source_id" "ok A_edge_target_id" "ok A_edge_weight"
    and few: "length input_u \<le> INT_MAX"
    and len: "length input_v = length input_u" "length input_w = length input_u"
    and short: "\<forall>s \<in> set input_u \<union> set input_v. length (c_str s) < MAX_STRING"
    and room: "length (first_occurrences (stream_names input_u input_v)) < hash_table_size"
  shows "\<exists>g. VectorReadData ok InitHashTable input_u input_v input_w = Inr g
           \<and> hash_inv (g_vertex g) (g_hash g)
           \<and> map name (g_vertex g) = first_occurrences (stream_names input_u input_v)
           \<and> g_source g = map (\<lambda>k. index_of (map name (g_vertex g)) (c_str (input_u ! k)))
                              [0..<length input_u]
           \<and> g_target g = map (\<lambda>k. index_of (map name (g_vertex g)) (c_str (input_v ! k)))
                              [0..<length input_u]
           \<and> g_weight g = input_w"
proof -
  let ?g0 = "\<lparr>g_vertex = [], g_hash = InitHashTable, g_source = [], g_target = [],
               g_weight = []\<rparr>"
  let ?ks = "[0..<length input_u]"
  let ?names = "concat (map (\<lambda>k. [c_str (input_u ! k), c_str (input_v ! k)]) ?ks)"
  have sn: "stream_names input_u input_v = ?names" by (rule stream_names_nth [OF len(1)])
  have inv: "hash_inv (g_vertex ?g0) (g_hash ?g0)" by (simp add: hash_inv_init)
  have rng: "\<forall>k\<in>set ?ks. k < length input_u \<and> k < length input_v \<and> k < length input_w"
    using len by simp
  have sh: "\<forall>k\<in>set ?ks. length (c_str (input_u ! k)) < MAX_STRING
                          \<and> length (c_str (input_v ! k)) < MAX_STRING"
    using short len by simp
  have rm: "length (fold note_name ?names (map name (g_vertex ?g0))) < hash_table_size"
    using room unfolding sn first_occurrences_def by simp
  from read_edges_spec [OF inv rng sh rm] obtain g where
    R: "read_edges input_u input_v input_w ?ks ?g0 = Inr g
      \<and> hash_inv (g_vertex g) (g_hash g)
      \<and> map name (g_vertex g) = fold note_name ?names (map name (g_vertex ?g0))
      \<and> g_source g = g_source ?g0
                 @ map (\<lambda>k. index_of (map name (g_vertex g)) (c_str (input_u ! k))) ?ks
      \<and> g_target g = g_target ?g0
                 @ map (\<lambda>k. index_of (map name (g_vertex g)) (c_str (input_v ! k))) ?ks
      \<and> g_weight g = g_weight ?g0 @ map (\<lambda>k. input_w ! k) ?ks" ..
  have a: "VectorReadData ok InitHashTable input_u input_v input_w = Inr g"
    using ok few R [THEN conjunct1] by (simp add: VectorReadData_def)
  have b: "hash_inv (g_vertex g) (g_hash g)" by (rule R [THEN conjunct2, THEN conjunct1])
  have c: "map name (g_vertex g) = first_occurrences (stream_names input_u input_v)"
    using R [THEN conjunct2, THEN conjunct2, THEN conjunct1]
    unfolding sn first_occurrences_def by simp
  have d: "g_source g = map (\<lambda>k. index_of (map name (g_vertex g)) (c_str (input_u ! k))) ?ks"
    using R [THEN conjunct2, THEN conjunct2, THEN conjunct2, THEN conjunct1] by simp
  have e: "g_target g = map (\<lambda>k. index_of (map name (g_vertex g)) (c_str (input_v ! k))) ?ks"
    using R [THEN conjunct2, THEN conjunct2, THEN conjunct2, THEN conjunct2, THEN conjunct1]
    by simp
  have "g_weight g = map (\<lambda>k. input_w ! k) [0..<length input_w]"
    using R [THEN conjunct2, THEN conjunct2, THEN conjunct2, THEN conjunct2, THEN conjunct2]
      len(2) by simp
  then have f: "g_weight g = input_w" by (simp add: map_nth)
  show ?thesis by (intro exI [of _ g] conjI a b c d e f)
qed

lemma map_upt_nth: "length ys = length xs \<Longrightarrow> map (\<lambda>k. f (ys ! k)) [0..<length xs] = map f ys"
  by (intro nth_equalityI) simp_all

text \<open>
  The insertion as the specification has it, for edge streams the buffers and the table can
  hold. Take at most \<open>INT_MAX\<close> edges whose three vectors have the same length, whose names,
  read as C strings (up to the first NUL byte), are shorter than \<open>MAX_STRING\<close> (100 bytes),
  and which have fewer than \<open>hash_table_size\<close> (30,000,000) distinct names; let the three
  edge arrays be allocated. Then \<open>VectorReadData\<close> returns, the names of the vertices in id
  order are the names of the stream in the order of their first occurrence, and every edge
  holds the positions of its two names in that list. In the index it leaves, inserting a
  name that is present returns the id of the name and changes nothing, and inserting a new
  name (shorter than \<open>MAX_STRING\<close>) returns the number of vertices and appends one vertex of
  degree 0.
\<close>

lemma VectorReadData_first_occurrence:
  assumes ok: "ok A_edge_source_id" "ok A_edge_target_id" "ok A_edge_weight"
    and few: "length input_u \<le> INT_MAX"
    and len: "length input_v = length input_u" "length input_w = length input_u"
    and short: "\<forall>s \<in> set input_u \<union> set input_v. length (c_str s) < MAX_STRING"
    and room: "length (first_occurrences (stream_names input_u input_v)) < hash_table_size"
  shows "\<exists>g. VectorReadData ok InitHashTable input_u input_v input_w = Inr g
           \<and> map name (g_vertex g) = first_occurrences (stream_names input_u input_v)
           \<and> g_source g = map (\<lambda>s. index_of (first_occurrences (stream_names input_u input_v))
                                      (c_str s)) input_u
           \<and> g_target g = map (\<lambda>s. index_of (first_occurrences (stream_names input_u input_v))
                                      (c_str s)) input_v
           \<and> (\<forall>nm \<in> set (map name (g_vertex g)).
                 Insert nm (g_vertex g, g_hash g)
                   = Inr (int (index_of (map name (g_vertex g)) nm), g_vertex g, g_hash g))
           \<and> (\<forall>nm. nm \<notin> set (map name (g_vertex g)) \<and> length nm < MAX_STRING \<longrightarrow>
                 (\<exists>tab'. Insert nm (g_vertex g, g_hash g)
                    = Inr (int (length (g_vertex g)),
                           g_vertex g @ [\<lparr>degree = 0, name = nm\<rparr>], tab')))"
proof -
  let ?F = "first_occurrences (stream_names input_u input_v)"
  from VectorReadData_names [OF ok few len short room] obtain g where
    R: "VectorReadData ok InitHashTable input_u input_v input_w = Inr g
           \<and> hash_inv (g_vertex g) (g_hash g)
           \<and> map name (g_vertex g) = ?F
           \<and> g_source g = map (\<lambda>k. index_of (map name (g_vertex g)) (c_str (input_u ! k)))
                              [0..<length input_u]
           \<and> g_target g = map (\<lambda>k. index_of (map name (g_vertex g)) (c_str (input_v ! k)))
                              [0..<length input_u]
           \<and> g_weight g = input_w" ..
  note run = R [THEN conjunct1]
    and inv = R [THEN conjunct2, THEN conjunct1]
    and names = R [THEN conjunct2, THEN conjunct2, THEN conjunct1]
    and src = R [THEN conjunct2, THEN conjunct2, THEN conjunct2, THEN conjunct1]
    and tgt = R [THEN conjunct2, THEN conjunct2, THEN conjunct2, THEN conjunct2, THEN conjunct1]
  have c: "g_source g = map (\<lambda>s. index_of ?F (c_str s)) input_u"
    unfolding src names by (rule map_upt_nth) simp
  have d: "g_target g = map (\<lambda>s. index_of ?F (c_str s)) input_v"
    unfolding tgt names by (rule map_upt_nth [OF len(1)])
  have e: "\<forall>nm \<in> set (map name (g_vertex g)).
             Insert nm (g_vertex g, g_hash g)
               = Inr (int (index_of (map name (g_vertex g)) nm), g_vertex g, g_hash g)"
    using Insert_present [OF inv] by blast
  have rm: "length (g_vertex g) < hash_table_size"
    using room names [symmetric] by simp
  have f: "\<forall>nm. nm \<notin> set (map name (g_vertex g)) \<and> length nm < MAX_STRING \<longrightarrow>
             (\<exists>tab'. Insert nm (g_vertex g, g_hash g)
                = Inr (int (length (g_vertex g)),
                       g_vertex g @ [\<lparr>degree = 0, name = nm\<rparr>], tab'))"
  proof (intro allI impI)
    fix nm
    assume h: "nm \<notin> set (map name (g_vertex g)) \<and> length nm < MAX_STRING"
    from Insert_new [OF inv rm h [THEN conjunct1] h [THEN conjunct2]]
    show "\<exists>tab'. Insert nm (g_vertex g, g_hash g)
                = Inr (int (length (g_vertex g)),
                       g_vertex g @ [\<lparr>degree = 0, name = nm\<rparr>], tab')"
      by (elim exE conjE) (rule exI)
  qed
  show ?thesis by (intro exI [of _ g] conjI run names c d e f)
qed

text \<open>
  The stream with the edges (B, A) and (B, C), whose names come in the order B, A, B, C:
  the ids are B = 0, A = 1, C = 2.
\<close>

lemma example_names:
  "first_occurrences (stream_names [''B'', ''B''] [''A'', ''C'']) = [''B'', ''A'', ''C'']"
  by (simp add: first_occurrences_def stream_names_def c_str_def note_name_def)

lemma VectorReadData_example:
  "\<exists>g. VectorReadData (\<lambda>_. True) InitHashTable [''B'', ''B''] [''A'', ''C''] [1, 1] = Inr g
      \<and> map name (g_vertex g) = [''B'', ''A'', ''C'']
      \<and> g_source g = [0, 0] \<and> g_target g = [1, 2]
      \<and> Insert ''A'' (g_vertex g, g_hash g) = Inr (1, g_vertex g, g_hash g)
      \<and> (\<exists>tab'. Insert ''D'' (g_vertex g, g_hash g)
            = Inr (3, g_vertex g @ [\<lparr>degree = 0, name = ''D''\<rparr>], tab'))"
proof -
  let ?u = "[''B'', ''B'']" and ?v = "[''A'', ''C'']"
  have len: "length ?v = length ?u" "length [1, 1 :: real] = length ?u" by simp_all
  have short: "\<forall>s \<in> set ?u \<union> set ?v. length (c_str s) < MAX_STRING"
    by (simp add: c_str_def MAX_STRING_def)
  have room: "length (first_occurrences (stream_names ?u ?v)) < hash_table_size"
    unfolding example_names by (simp add: hash_table_size_def)
  have few: "length ?u \<le> INT_MAX" by (simp add: INT_MAX_def)
  from VectorReadData_first_occurrence [of "\<lambda>_. True" ?u ?v "[1, 1]", OF TrueI TrueI TrueI few len short room]
  obtain g where
    R: "VectorReadData (\<lambda>_. True) InitHashTable ?u ?v [1, 1] = Inr g
           \<and> map name (g_vertex g) = first_occurrences (stream_names ?u ?v)
           \<and> g_source g = map (\<lambda>s. index_of (first_occurrences (stream_names ?u ?v)) (c_str s)) ?u
           \<and> g_target g = map (\<lambda>s. index_of (first_occurrences (stream_names ?u ?v)) (c_str s)) ?v
           \<and> (\<forall>nm \<in> set (map name (g_vertex g)).
                 Insert nm (g_vertex g, g_hash g)
                   = Inr (int (index_of (map name (g_vertex g)) nm), g_vertex g, g_hash g))
           \<and> (\<forall>nm. nm \<notin> set (map name (g_vertex g)) \<and> length nm < MAX_STRING \<longrightarrow>
                 (\<exists>tab'. Insert nm (g_vertex g, g_hash g)
                    = Inr (int (length (g_vertex g)),
                           g_vertex g @ [\<lparr>degree = 0, name = nm\<rparr>], tab')))" ..
  note run = R [THEN conjunct1]
    and names = R [THEN conjunct2, THEN conjunct1, unfolded example_names]
    and src = R [THEN conjunct2, THEN conjunct2, THEN conjunct1, unfolded example_names]
    and tgt = R [THEN conjunct2, THEN conjunct2, THEN conjunct2, THEN conjunct1,
                 unfolded example_names]
    and old = R [THEN conjunct2, THEN conjunct2, THEN conjunct2, THEN conjunct2, THEN conjunct1]
    and new = R [THEN conjunct2, THEN conjunct2, THEN conjunct2, THEN conjunct2, THEN conjunct2]
  have c: "g_source g = [0, 0]" unfolding src by (simp add: index_of_def c_str_def)
  have d: "g_target g = [1, 2]" unfolding tgt by (simp add: index_of_def c_str_def)
  have len3: "length (g_vertex g) = 3" using arg_cong [OF names, of length] by simp
  have e: "Insert ''A'' (g_vertex g, g_hash g) = Inr (1, g_vertex g, g_hash g)"
    using old [THEN bspec, of "''A''"] unfolding names by (simp add: index_of_def)
  have f: "\<exists>tab'. Insert ''D'' (g_vertex g, g_hash g)
            = Inr (3, g_vertex g @ [\<lparr>degree = 0, name = ''D''\<rparr>], tab')"
    using new [THEN spec, of "''D''"] unfolding names len3 by (simp add: MAX_STRING_def)
  show ?thesis by (intro exI [of _ g] conjI run names c d e f)
qed

text \<open>
  A name of 100 bytes or more. \<open>AddVertex\<close> stores its first 99 bytes, and \<open>SearchHashTable\<close>
  compares the whole key with what is stored: the name is never found again.
\<close>

lemma probe_key_pos:
  "0 < fuel \<Longrightarrow> probe_key fuel vertex tab key addr =
     (if tab addr = - 1 then Inr (- 1)
      else if \<not> (0 \<le> tab addr \<and> tab addr < int (length vertex)) then Inl OutOfBounds
      else if key = name (vertex ! nat (tab addr)) then Inr (tab addr)
      else probe_key (fuel - 1) vertex tab key ((addr + 1) mod hash_table_size))"
  by (cases fuel) simp_all

lemma probe_free_pos:
  "0 < fuel \<Longrightarrow> probe_free fuel tab addr =
     (if tab addr \<noteq> - 1 then probe_free (fuel - 1) tab ((addr + 1) mod hash_table_size)
      else Some addr)"
  by (cases fuel) simp_all

lemma hash_table_size_gt: "0 < hash_table_size" "0 < hash_table_size - 1"
  by (simp_all add: hash_table_size_def)

lemma next_addr_neq: "h < hash_table_size \<Longrightarrow> (h + 1) mod hash_table_size \<noteq> h"
proof (cases "h + 1 < hash_table_size")
  case True
  then show ?thesis by simp
next
  case False
  assume "h < hash_table_size"
  with False have "h + 1 = hash_table_size" by simp
  then show ?thesis by (simp add: hash_table_size_def)
qed

lemma Insert_long_name_first:
  "Insert long_name ([], InitHashTable)
     = Inr (0, [\<lparr>degree = 0, name = replicate 99 (CHR ''a'')\<rparr>],
            InitHashTable (Hash long_name := 0))"
proof -
  have s: "SearchHashTable [] InitHashTable long_name = Inr (- 1)"
    unfolding SearchHashTable_def
    by (subst probe_key_pos [OF hash_table_size_gt(1)]) (simp add: InitHashTable_def)
  have p: "probe_free hash_table_size InitHashTable (Hash long_name) = Some (Hash long_name)"
    by (subst probe_free_pos [OF hash_table_size_gt(1)]) (simp add: InitHashTable_def)
  have a: "AddVertex long_name ([], InitHashTable)
             = Inr (0, [\<lparr>degree = 0, name = replicate 99 (CHR ''a'')\<rparr>],
                    InitHashTable (Hash long_name := 0))"
    by (simp add: AddVertex_def InsertHashTable_def p Let_def MAX_STRING_def)
       (simp add: long_name_def)
  show ?thesis by (simp add: Insert_def s a)
qed

lemma Insert_long_name_again:
  "Insert long_name ([\<lparr>degree = 0, name = replicate 99 (CHR ''a'')\<rparr>],
                     InitHashTable (Hash long_name := 0))
     = Inr (1, [\<lparr>degree = 0, name = replicate 99 (CHR ''a'')\<rparr>,
                \<lparr>degree = 0, name = replicate 99 (CHR ''a'')\<rparr>],
            InitHashTable (Hash long_name := 0,
                           (Hash long_name + 1) mod hash_table_size := 1))"
proof -
  let ?h = "Hash long_name"
  let ?v = "\<lparr>degree = 0, name = replicate 99 (CHR ''a'')\<rparr>"
  let ?T = "InitHashTable (?h := 0)"
  have n: "(?h + 1) mod hash_table_size \<noteq> ?h" by (rule next_addr_neq [OF Hash_lt])
  have t0: "?T ?h = 0" by simp
  have t1: "?T ((?h + 1) mod hash_table_size) = - 1" using n by (simp add: InitHashTable_def)
  have ne: "long_name \<noteq> replicate 99 (CHR ''a'')" by (simp add: long_name_def)
  have "probe_key (hash_table_size - 1) [?v] ?T long_name ((?h + 1) mod hash_table_size)
          = Inr (- 1)"
    by (subst probe_key_pos [OF hash_table_size_gt(2)]) (simp only: t1 simp_thms if_True)
  then have s: "SearchHashTable [?v] ?T long_name = Inr (- 1)"
    unfolding SearchHashTable_def
    by (subst probe_key_pos [OF hash_table_size_gt(1)]) (simp add: t0 ne)
  have "probe_free (hash_table_size - 1) ?T ((?h + 1) mod hash_table_size)
          = Some ((?h + 1) mod hash_table_size)"
    by (subst probe_free_pos [OF hash_table_size_gt(2)]) (simp only: t1 simp_thms if_False)
  then have p: "probe_free hash_table_size ?T ?h = Some ((?h + 1) mod hash_table_size)"
    by (subst probe_free_pos [OF hash_table_size_gt(1)]) (simp add: t0)
  have a: "AddVertex long_name ([?v], ?T)
             = Inr (1, [?v, ?v], ?T ((?h + 1) mod hash_table_size := 1))"
    by (simp add: AddVertex_def InsertHashTable_def p Let_def MAX_STRING_def)
       (simp add: long_name_def)
  show ?thesis by (simp add: Insert_def s a)
qed

text \<open>
  Claim C7 fails on the code for names of 100 bytes or more. On the edges \<open>(L, A)\<close> and
  \<open>(L, C)\<close>, where \<open>L\<close> is a name of 100 bytes, \<open>strcpy\<close> at line 329 writes 101 bytes into
  the buffer \<open>name_v1\<close> of \<open>MAX_STRING\<close> bytes. And the insertion of \<open>L\<close> itself, lines 339
  and 340, gives the name the id 0 the first time and the new id 1 the second time, with a
  second vertex: the name is present and is not found.
\<close>

theorem C7_long_name_new_id:
  "VectorReadData (\<lambda>_. True) InitHashTable [long_name, long_name] [''A'', ''C''] [1, 1]
     = Inl BufferOverflow
   \<and> Insert long_name ([], InitHashTable)
     = Inr (0, [\<lparr>degree = 0, name = replicate 99 (CHR ''a'')\<rparr>],
            InitHashTable (Hash long_name := 0))
   \<and> Insert long_name ([\<lparr>degree = 0, name = replicate 99 (CHR ''a'')\<rparr>],
                       InitHashTable (Hash long_name := 0))
     = Inr (1, [\<lparr>degree = 0, name = replicate 99 (CHR ''a'')\<rparr>,
                \<lparr>degree = 0, name = replicate 99 (CHR ''a'')\<rparr>],
            InitHashTable (Hash long_name := 0,
                           (Hash long_name + 1) mod hash_table_size := 1))"
proof (intro conjI)
  show "VectorReadData (\<lambda>_. True) InitHashTable [long_name, long_name] [''A'', ''C''] [1, 1]
          = Inl BufferOverflow"
    by (simp add: VectorReadData_def INT_MAX_def upt_conv_Cons cell_def strcpy_name_def c_str_def
        MAX_STRING_def long_name_def)
  show "Insert long_name ([], InitHashTable)
     = Inr (0, [\<lparr>degree = 0, name = replicate 99 (CHR ''a'')\<rparr>],
            InitHashTable (Hash long_name := 0))"
    by (rule Insert_long_name_first)
  show "Insert long_name ([\<lparr>degree = 0, name = replicate 99 (CHR ''a'')\<rparr>],
                       InitHashTable (Hash long_name := 0))
     = Inr (1, [\<lparr>degree = 0, name = replicate 99 (CHR ''a'')\<rparr>,
                \<lparr>degree = 0, name = replicate 99 (CHR ''a'')\<rparr>],
            InitHashTable (Hash long_name := 0,
                           (Hash long_name + 1) mod hash_table_size := 1))"
    by (rule Insert_long_name_again)
qed

subsection \<open>The sigmoid table\<close>

lemma InitSigmoidTable_length:
  "length InitSigmoidTable = sigmoid_table_size + 1"
  by (simp add: InitSigmoidTable_def fold_upd_length)

lemma InitSigmoidTable_nth:
  "k \<le> sigmoid_table_size \<Longrightarrow>
   InitSigmoidTable ! k =
     (if k < sigmoid_table_size then Some (1 / (1 + exp (- sigmoid_arg k))) else None)"
  by (simp add: InitSigmoidTable_def fold_upd_nth del: replicate.simps)

text \<open>
  C4. \<open>FastSigmoid\<close> is meant to return the table value of the bucket of \<open>x\<close> among 1000
  buckets spaced linearly over \<open>[-6, 6]\<close>, within the bucket width \<open>12/1000\<close> of the
  logistic function. At \<open>x = 1/2\<close> the code reads bucket 541, which
  \<open>InitSigmoidTable\<close> filled with the logistic function at the integer
  \<open>12 * 541 div 1000 - 6 = 0\<close>: the result is \<open>1/2\<close>, further than \<open>12/1000\<close> from
  \<open>1 / (1 + exp (- 1/2))\<close>.
\<close>

theorem C4_FastSigmoid_half:
  "FastSigmoid InitSigmoidTable (1/2) = Inr (1/2)
   \<and> 12 / 1000 < \<bar>1 / (1 + exp (- (1/2))) - (1/2 :: real)\<bar>"
proof -
  have k: "trunc_to_int (((1/2 :: real) + of_int SIGMOID_BOUND) * real sigmoid_table_size
              / of_int SIGMOID_BOUND / 2) = 541"
    by (simp add: trunc_to_int_def SIGMOID_BOUND_def sigmoid_table_size_def floor_eq_iff)
  have arg: "sigmoid_arg 541 = 0"
    by (simp add: sigmoid_arg_def SIGMOID_BOUND_def sigmoid_table_size_def)
  have cell: "InitSigmoidTable ! 541 = Some (1/2)"
    using InitSigmoidTable_nth [of 541] arg by (simp add: sigmoid_table_size_def)
  have eval: "FastSigmoid InitSigmoidTable (1/2) = Inr (1/2)"
    unfolding FastSigmoid_def k
    using cell by (simp add: rd_def InitSigmoidTable_length sigmoid_table_size_def SIGMOID_BOUND_def)
  have "1 + (1/2 :: real) \<le> exp (1/2)"
    by (rule exp_ge_add_one_self)
  then have "exp (- (1/2) :: real) \<le> 2/3"
    by (simp add: exp_minus inverse_eq_divide field_simps)
  moreover have "(0 :: real) < 1 + exp (- (1/2))"
    by (simp add: add_pos_pos)
  ultimately have "(3/5 :: real) \<le> 1 / (1 + exp (- (1/2)))"
    by (simp add: pos_le_divide_eq)
  then have "12 / 1000 < \<bar>1 / (1 + exp (- (1/2))) - (1/2 :: real)\<bar>"
    by simp
  with eval show ?thesis by simp
qed

text \<open>
  C9. \<open>FastSigmoid\<close> is meant to be non-decreasing with values between 0 and 1. At
  \<open>x = 6\<close> neither guard fires (\<open>6 > 6\<close> is false), the index is 1000, and the cell
  1000 of the 1001 allocated is the one \<open>InitSigmoidTable\<close> never writes: the value
  returned is whatever the block held.
\<close>

theorem C9_FastSigmoid_bound_uninit:
  "FastSigmoid InitSigmoidTable 6 = Inl UninitRead"
proof -
  have k: "trunc_to_int (((6 :: real) + of_int SIGMOID_BOUND) * real sigmoid_table_size
              / of_int SIGMOID_BOUND / 2) = 1000"
    by (simp add: trunc_to_int_def SIGMOID_BOUND_def sigmoid_table_size_def)
  have cell: "InitSigmoidTable ! 1000 = None"
    using InitSigmoidTable_nth [of 1000] by (simp add: sigmoid_table_size_def)
  show ?thesis
    unfolding FastSigmoid_def k
    using cell by (simp add: rd_def InitSigmoidTable_length sigmoid_table_size_def SIGMOID_BOUND_def)
qed

subsection \<open>The alias table\<close>

lemma classify_fold:
  "fold (\<lambda>k w. if norm_prob w ! k < 1
                   then w\<lparr>small_block := k # small_block w\<rparr>
                   else w\<lparr>large_block := k # large_block w\<rparr>) (rev ks) w0
   = w0\<lparr>small_block := filter (\<lambda>k. norm_prob w0 ! k < 1) ks @ small_block w0,
        large_block := filter (\<lambda>k. \<not> norm_prob w0 ! k < 1) ks @ large_block w0\<rparr>"
  by (induction ks) simp_all

lemma alias_classify_eq:
  "alias_classify np =
     \<lparr>prob = replicate (length np) None, alias_tab = replicate (length np) None,
      norm_prob = np, small_block = filter (\<lambda>k. np ! k < 1) [0..<length np],
      large_block = filter (\<lambda>k. \<not> np ! k < 1) [0..<length np]\<rparr>"
  unfolding alias_classify_def classify_fold by simp

lemma distinct_filter_split:
  "distinct ks \<Longrightarrow> distinct (filter P ks @ filter (\<lambda>k. \<not> P k) ks)"
  by (induction ks) auto

lemma alias_inv_classify:
  assumes "\<forall>x \<in> set np. 0 < x"
  shows "alias_inv np (alias_classify np)"
proof -
  have q: "queued (alias_classify np) = {..<length np}"
    by (auto simp: alias_classify_eq queued_def)
  have s: "settled (length np) (alias_classify np) = {}"
    by (auto simp: settled_def q)
  show ?thesis
    unfolding alias_inv_def s q using assms
    by (auto simp: alias_classify_eq distinct_filter_split)
qed


lemma slot_mass_upd_other:
  "k \<noteq> s \<Longrightarrow> slot_mass (p[s := x], a[s := y]) k j = slot_mass (p, a) k j"
  by (simp add: slot_mass_def cong: option.case_cong)

lemma slot_mass_upd_same:
  "s < length p \<Longrightarrow> s < length a \<Longrightarrow> 0 < v \<Longrightarrow> v < 1 \<Longrightarrow>
   slot_mass (p[s := Some v], a[s := Some l]) s j
     = (if s = j then v else 0) + (if l = j then 1 - v else 0)"
  by (auto simp: slot_mass_def clamp01_def)

lemma alias_inv_step:
  assumes inv: "alias_inv W w"
    and S: "small_block w = s # ss" and L: "large_block w = l # ls"
    and np': "np' = (norm_prob w)[l := norm_prob w ! l + norm_prob w ! s - 1]"
    and w2: "w2 = w\<lparr>prob := (prob w)[s := Some (norm_prob w ! s)],
                     alias_tab := (alias_tab w)[s := Some l],
                     norm_prob := np', small_block := S', large_block := L'\<rparr>"
    and br: "(np' ! l < 1 \<and> S' = l # ss \<and> L' = ls) \<or> (\<not> np' ! l < 1 \<and> S' = ss \<and> L' = l # ls)"
  shows "alias_inv W w2"
proof -
  let ?n = "length W"
  from inv have len: "length (prob w) = ?n" "length (alias_tab w) = ?n" "length (norm_prob w) = ?n"
    and dist: "distinct (small_block w @ large_block w)"
    and qlt: "\<forall>q \<in> queued w. q < ?n"
    and sm: "\<forall>s \<in> set (small_block w). 0 < norm_prob w ! s \<and> norm_prob w ! s < 1"
    and lg: "\<forall>l \<in> set (large_block w). 1 \<le> norm_prob w ! l"
    and un: "\<forall>q \<in> queued w. alias_tab w ! q = None"
    and fin: "\<forall>k \<in> settled ?n w.
           \<exists>p l. prob w ! k = Some p \<and> 0 < p \<and> p < 1 \<and> alias_tab w ! k = Some l \<and> l < ?n"
    and mass: "\<forall>j < ?n. (\<Sum>k \<in> settled ?n w. slot_mass (prob w, alias_tab w) k j)
             + (if j \<in> queued w then norm_prob w ! j else 0) = W ! j"
    unfolding alias_inv_def by blast+
  from dist S L have ne: "s \<noteq> l" "s \<notin> set ss" "s \<notin> set ls" "l \<notin> set ss" "l \<notin> set ls"
    "distinct ss" "distinct ls" "set ss \<inter> set ls = {}"
    by auto
  from qlt S L have lt: "s < ?n" "l < ?n"
    by (auto simp: queued_def)
  from sm S have sv: "0 < norm_prob w ! s" "norm_prob w ! s < 1" by auto
  from lg L have lv: "1 \<le> norm_prob w ! l" by auto
  have np'l: "np' ! l = norm_prob w ! l + norm_prob w ! s - 1"
    using np' lt len by simp
  have np'o: "\<And>k. k \<noteq> l \<Longrightarrow> np' ! k = norm_prob w ! k"
    using np' by simp
  have SL': "set S' \<union> set L' = (set ss \<union> set ls) \<union> {l}"
    using br by auto
  have q2: "queued w2 = queued w - {s}"
    using ne S L SL' by (auto simp: queued_def w2)
  have q1: "queued w = insert s (insert l (set ss \<union> set ls))"
    using S L by (auto simp: queued_def)
  have st2: "settled ?n w2 = insert s (settled ?n w)"
    using lt q1 by (auto simp: settled_def q2)
  have snot: "s \<notin> settled ?n w"
    using q1 by (simp add: settled_def)
  have finset: "finite (settled ?n w)"
    by (simp add: settled_def)
  have tbl2: "prob w2 = (prob w)[s := Some (norm_prob w ! s)]"
    "alias_tab w2 = (alias_tab w)[s := Some l]" "norm_prob w2 = np'"
    "small_block w2 = S'" "large_block w2 = L'"
    by (simp_all add: w2)
  have c1: "length (prob w2) = ?n \<and> length (alias_tab w2) = ?n \<and> length (norm_prob w2) = ?n"
    using len np' by (simp add: tbl2)
  have c2: "distinct (small_block w2 @ large_block w2)"
    using br ne by (auto simp: tbl2)
  have c3: "\<forall>q \<in> queued w2. q < ?n"
    using qlt by (simp add: q2)
  have c4: "\<forall>x \<in> set (small_block w2). 0 < norm_prob w2 ! x \<and> norm_prob w2 ! x < 1"
  proof
    fix x assume x: "x \<in> set (small_block w2)"
    show "0 < norm_prob w2 ! x \<and> norm_prob w2 ! x < 1"
    proof (cases "x = l")
      case True
      with x br ne have "np' ! l < 1" by (auto simp: tbl2)
      moreover have "0 < np' ! l" using np'l sv lv by simp
      ultimately show ?thesis using True by (simp add: tbl2)
    next
      case False
      with x br have "x \<in> set ss" by (auto simp: tbl2)
      then have "x \<in> set (small_block w)" using S by simp
      with sm False show ?thesis by (simp add: tbl2 np'o)
    qed
  qed
  have c5: "\<forall>x \<in> set (large_block w2). 1 \<le> norm_prob w2 ! x"
  proof
    fix x assume x: "x \<in> set (large_block w2)"
    show "1 \<le> norm_prob w2 ! x"
    proof (cases "x = l")
      case True
      with x br ne have "\<not> np' ! l < 1" by (auto simp: tbl2)
      then show ?thesis using True by (simp add: tbl2)
    next
      case False
      with x br have "x \<in> set ls" by (auto simp: tbl2)
      then have "x \<in> set (large_block w)" using L by simp
      with lg False show ?thesis by (simp add: tbl2 np'o)
    qed
  qed
  have c8: "\<forall>q \<in> queued w2. alias_tab w2 ! q = None"
    using un by (simp add: q2 tbl2)
  have c6: "\<forall>k \<in> settled ?n w2.
           \<exists>p l. prob w2 ! k = Some p \<and> 0 < p \<and> p < 1 \<and> alias_tab w2 ! k = Some l \<and> l < ?n"
  proof
    fix k assume k: "k \<in> settled ?n w2"
    show "\<exists>p l. prob w2 ! k = Some p \<and> 0 < p \<and> p < 1 \<and> alias_tab w2 ! k = Some l \<and> l < ?n"
    proof (cases "k = s")
      case True
      then show ?thesis using sv lt len by (simp add: tbl2)
    next
      case False
      with k have "k \<in> settled ?n w" by (simp add: st2)
      with fin False show ?thesis by (simp add: tbl2)
    qed
  qed
  have old: "\<And>j. (\<Sum>k \<in> settled ?n w. slot_mass (prob w2, alias_tab w2) k j)
                 = (\<Sum>k \<in> settled ?n w. slot_mass (prob w, alias_tab w) k j)"
  proof (rule sum.cong)
    fix j k assume "k \<in> settled ?n w"
    with snot have "k \<noteq> s" by auto
    then show "slot_mass (prob w2, alias_tab w2) k j = slot_mass (prob w, alias_tab w) k j"
      by (simp add: tbl2 slot_mass_upd_other)
  qed simp
  have new: "\<And>j. slot_mass (prob w2, alias_tab w2) s j
       = (if s = j then norm_prob w ! s else 0) + (if l = j then 1 - norm_prob w ! s else 0)"
    using slot_mass_upd_same [of s "prob w" "alias_tab w" "norm_prob w ! s" l] lt len sv
    by (simp add: tbl2)
  have c7: "\<forall>j < ?n. (\<Sum>k \<in> settled ?n w2. slot_mass (prob w2, alias_tab w2) k j)
             + (if j \<in> queued w2 then norm_prob w2 ! j else 0) = W ! j"
  proof (intro allI impI)
    fix j assume j: "j < ?n"
    have split: "(\<Sum>k \<in> settled ?n w2. slot_mass (prob w2, alias_tab w2) k j)
        = slot_mass (prob w2, alias_tab w2) s j
          + (\<Sum>k \<in> settled ?n w. slot_mass (prob w, alias_tab w) k j)"
      unfolding st2 using snot finset by (simp add: old)
    from mass j have m: "(\<Sum>k \<in> settled ?n w. slot_mass (prob w, alias_tab w) k j)
             + (if j \<in> queued w then norm_prob w ! j else 0) = W ! j" by blast
    consider "j = s" | "j = l" | "j \<noteq> s" "j \<noteq> l" by blast
    then show "(\<Sum>k \<in> settled ?n w2. slot_mass (prob w2, alias_tab w2) k j)
             + (if j \<in> queued w2 then norm_prob w2 ! j else 0) = W ! j"
    proof cases
      case 1
      show ?thesis unfolding split new q2 using 1 m ne q1 by (simp add: tbl2(3))
    next
      case 2
      show ?thesis unfolding split new q2 using 2 m ne q1 np'l by (simp add: tbl2(3))
    next
      case 3
      show ?thesis unfolding split new q2 using 3 m np'o [of j] by (simp add: tbl2(3) split: if_splits)
    qed
  qed
  show ?thesis
    unfolding alias_inv_def using c1 c2 c3 c4 c5 c6 c7 c8 by blast
qed


lemma alias_pair_inv:
  "alias_inv W w \<Longrightarrow>
   alias_inv W (alias_pair w)
   \<and> (small_block (alias_pair w) = [] \<or> large_block (alias_pair w) = [])"
proof (induction w rule: alias_pair.induct)
  case (1 w)
  show ?case
  proof (cases "small_block w")
    case Nil
    then have "alias_pair w = w" by (subst alias_pair.simps) simp
    with Nil "1.prems" show ?thesis by simp
  next
    case S: (Cons s ss)
    show ?thesis
    proof (cases "large_block w")
      case Nil
      then have "alias_pair w = w" by (subst alias_pair.simps) (simp add: S)
      with Nil "1.prems" show ?thesis by simp
    next
      case L: (Cons l ls)
      define np' where "np' = (norm_prob w)[l := norm_prob w ! l + norm_prob w ! s - 1]"
      define w' where "w' = w\<lparr>prob := (prob w)[s := Some (norm_prob w ! s)],
                         alias_tab := (alias_tab w)[s := Some l], norm_prob := np'\<rparr>"
      show ?thesis
      proof (cases "np' ! l < 1")
        case True
        let ?w2 = "w'\<lparr>small_block := l # ss, large_block := ls\<rparr>"
        have eq: "alias_pair w = alias_pair ?w2"
          by (subst alias_pair.simps) (simp add: S L Let_def True [unfolded np'_def] w'_def np'_def)
        have "alias_inv W ?w2"
          by (rule alias_inv_step [OF "1.prems" S L np'_def, where S' = "l # ss" and L' = ls])
             (simp_all add: w'_def True)
        then show ?thesis
          unfolding eq
          by (rule "1.IH"(1) [OF S L np'_def w'_def True])
      next
        case False
        let ?w2 = "w'\<lparr>small_block := ss, large_block := l # ls\<rparr>"
        have eq: "alias_pair w = alias_pair ?w2"
          by (subst alias_pair.simps) (simp add: S L Let_def False [unfolded np'_def] w'_def np'_def)
        have "alias_inv W ?w2"
          by (rule alias_inv_step [OF "1.prems" S L np'_def, where S' = ss and L' = "l # ls"])
             (simp_all add: w'_def False)
        then show ?thesis
          unfolding eq
          by (rule "1.IH"(2) [OF S L np'_def w'_def False])
      qed
    qed
  qed
qed


lemma slot_mass_row_sum:
  assumes "k < n" "p ! k = Some v" "0 < v" "v < 1" "a ! k = Some l" "l < n"
  shows "(\<Sum>j<n. slot_mass (p, a) k j) = 1"
proof -
  have "(\<Sum>j<n. slot_mass (p, a) k j)
      = (\<Sum>j<n. (if k = j then v else 0)) + (\<Sum>j<n. (if l = j then 1 - v else 0))"
    using assms by (simp add: slot_mass_def clamp01_def sum.distrib)
  also have "\<dots> = v + (1 - v)"
    using assms by simp
  finally show ?thesis by simp
qed

lemma queued_unit:
  assumes inv: "alias_inv W w"
    and tot: "(\<Sum>j<length W. W ! j) = real (length W)"
    and fin: "small_block w = [] \<or> large_block w = []"
  shows "\<forall>q \<in> queued w. norm_prob w ! q = 1"
proof -
  let ?n = "length W"
  let ?F = "settled ?n w"
  let ?Q = "queued w"
  from inv have qlt: "\<forall>q \<in> ?Q. q < ?n"
    and sm: "\<forall>s \<in> set (small_block w). 0 < norm_prob w ! s \<and> norm_prob w ! s < 1"
    and lg: "\<forall>l \<in> set (large_block w). 1 \<le> norm_prob w ! l"
    and st: "\<forall>k \<in> ?F.
           \<exists>p l. prob w ! k = Some p \<and> 0 < p \<and> p < 1 \<and> alias_tab w ! k = Some l \<and> l < ?n"
    and mass: "\<forall>j < ?n. (\<Sum>k \<in> ?F. slot_mass (prob w, alias_tab w) k j)
             + (if j \<in> ?Q then norm_prob w ! j else 0) = W ! j"
    unfolding alias_inv_def by blast+
  have finQ: "finite ?Q" by (simp add: queued_def)
  have Qsub: "?Q \<subseteq> {..<?n}" using qlt by auto
  have Fdef: "?F = {..<?n} - ?Q" by (auto simp: settled_def)
  have cards: "card ?F + card ?Q = ?n"
    unfolding Fdef using Qsub finQ
    by (metis card_lessThan card_Diff_subset card_mono diff_add finite_lessThan)
  have rows: "(\<Sum>k \<in> ?F. \<Sum>j<?n. slot_mass (prob w, alias_tab w) k j) = real (card ?F)"
  proof -
    have "\<And>k. k \<in> ?F \<Longrightarrow> (\<Sum>j<?n. slot_mass (prob w, alias_tab w) k j) = 1"
    proof -
      fix k assume k: "k \<in> ?F"
      then have kn: "k < ?n" by (simp add: settled_def)
      from st k obtain p l where "prob w ! k = Some p" "0 < p" "p < 1"
        "alias_tab w ! k = Some l" "l < ?n" by blast
      then show "(\<Sum>j<?n. slot_mass (prob w, alias_tab w) k j) = 1"
        using kn by (rule_tac slot_mass_row_sum)
    qed
    then show ?thesis by simp
  qed
  have "(\<Sum>j<?n. W ! j)
      = (\<Sum>j<?n. (\<Sum>k \<in> ?F. slot_mass (prob w, alias_tab w) k j)
                   + (if j \<in> ?Q then norm_prob w ! j else 0))"
    using mass by simp
  also have "\<dots> = (\<Sum>j<?n. \<Sum>k \<in> ?F. slot_mass (prob w, alias_tab w) k j)
                   + (\<Sum>j<?n. if j \<in> ?Q then norm_prob w ! j else 0)"
    by (simp add: sum.distrib)
  also have "(\<Sum>j<?n. \<Sum>k \<in> ?F. slot_mass (prob w, alias_tab w) k j) = real (card ?F)"
    by (subst sum.swap) (rule rows)
  also have "(\<Sum>j<?n. if j \<in> ?Q then norm_prob w ! j else 0) = (\<Sum>q \<in> ?Q. norm_prob w ! q)"
    using Qsub by (simp add: sum.inter_restrict [symmetric] Int_absorb1)
  finally have "(\<Sum>q \<in> ?Q. norm_prob w ! q) = real (card ?Q)"
    using tot cards by linarith
  then have zero: "(\<Sum>q \<in> ?Q. norm_prob w ! q - 1) = 0"
    by (simp add: sum_subtractf)
  from fin show ?thesis
  proof
    assume "small_block w = []"
    then have "\<forall>q \<in> ?Q. 0 \<le> norm_prob w ! q - 1"
      using lg by (simp add: queued_def)
    with zero finQ have "\<forall>q \<in> ?Q. norm_prob w ! q - 1 = 0"
      by (simp add: sum_nonneg_eq_0_iff)
    then show ?thesis by simp
  next
    assume L: "large_block w = []"
    have "?Q = {}"
    proof (rule ccontr)
      assume ne: "?Q \<noteq> {}"
      have "(\<Sum>q \<in> ?Q. norm_prob w ! q - 1) < (\<Sum>q \<in> ?Q. 0)"
        using finQ ne sm L by (intro sum_strict_mono) (auto simp: queued_def)
      with zero show False by simp
    qed
    then show ?thesis by simp
  qed
qed


lemma fold_prob_one:
  "fold (\<lambda>k v. v\<lparr>prob := (prob v)[k := Some 1]\<rparr>) ks v
     = v\<lparr>prob := fold (\<lambda>k p. p[k := Some 1]) ks (prob v)\<rparr>"
  by (induction ks arbitrary: v) simp_all

lemma fold_const_upd_length:
  "length (fold (\<lambda>k p. p[k := x]) ks p) = length p"
  by (induction ks arbitrary: p) simp_all

lemma fold_const_upd_nth:
  "i < length p \<Longrightarrow> fold (\<lambda>k p. p[k := x]) ks p ! i = (if i \<in> set ks then x else p ! i)"
  by (induction ks arbitrary: p) (auto simp: nth_list_update fold_const_upd_length)

lemma alias_finish_alias: "alias_tab (alias_finish w) = alias_tab w"
  by (simp add: alias_finish_def Let_def fold_prob_one)

lemma alias_finish_length: "length (prob (alias_finish w)) = length (prob w)"
  by (simp add: alias_finish_def Let_def fold_prob_one fold_const_upd_length)

lemma alias_finish_prob:
  "i < length (prob w) \<Longrightarrow>
   prob (alias_finish w) ! i = (if i \<in> queued w then Some 1 else prob w ! i)"
  by (simp add: alias_finish_def Let_def fold_prob_one fold_const_upd_nth
      fold_const_upd_length queued_def)

lemma alias_build_shape:
  assumes pos: "\<forall>x \<in> set np. 0 < x" and k: "k < length np"
  defines "w \<equiv> alias_finish (alias_pair (alias_classify np))"
  shows "length (prob w) = length np \<and> length (alias_tab w) = length np
         \<and> ((prob w ! k = Some 1 \<and> alias_tab w ! k = None)
            \<or> (\<exists>p l. prob w ! k = Some p \<and> 0 < p \<and> p < 1 \<and> alias_tab w ! k = Some l
                      \<and> l < length np))"
proof -
  let ?v = "alias_pair (alias_classify np)"
  have inv: "alias_inv np ?v"
    using alias_pair_inv [OF alias_inv_classify [OF pos]] by blast
  then have len: "length (prob ?v) = length np" "length (alias_tab ?v) = length np"
    and un: "\<forall>q \<in> queued ?v. alias_tab ?v ! q = None"
    and st: "\<forall>k \<in> settled (length np) ?v.
           \<exists>p l. prob ?v ! k = Some p \<and> 0 < p \<and> p < 1 \<and> alias_tab ?v ! k = Some l
                 \<and> l < length np"
    unfolding alias_inv_def by blast+
  show ?thesis
  proof (cases "k \<in> queued ?v")
    case True
    then show ?thesis
      using un k len by (simp add: w_def alias_finish_alias alias_finish_length alias_finish_prob)
  next
    case False
    with k have "k \<in> settled (length np) ?v" by (simp add: settled_def)
    with st False show ?thesis
      using k len by (simp add: w_def alias_finish_alias alias_finish_length alias_finish_prob)
  qed
qed

lemma alias_build_mass:
  assumes pos: "\<forall>x \<in> set np. 0 < x"
    and tot: "(\<Sum>j<length np. np ! j) = real (length np)"
    and j: "j < length np"
  defines "w \<equiv> alias_finish (alias_pair (alias_classify np))"
  shows "(\<Sum>k<length np. slot_mass (prob w, alias_tab w) k j) = np ! j"
proof -
  let ?n = "length np"
  let ?v = "alias_pair (alias_classify np)"
  let ?F = "settled ?n ?v"
  let ?Q = "queued ?v"
  have inv: "alias_inv np ?v" and fin: "small_block ?v = [] \<or> large_block ?v = []"
    using alias_pair_inv [OF alias_inv_classify [OF pos]] by blast+
  have unit: "\<forall>q \<in> ?Q. norm_prob ?v ! q = 1"
    by (rule queued_unit [OF inv tot fin])
  from inv have len: "length (prob ?v) = ?n"
    and qlt: "\<forall>q \<in> ?Q. q < ?n"
    and mass: "\<forall>j < ?n. (\<Sum>k \<in> ?F. slot_mass (prob ?v, alias_tab ?v) k j)
             + (if j \<in> ?Q then norm_prob ?v ! j else 0) = np ! j"
    unfolding alias_inv_def by blast+
  have finQ: "finite ?Q" by (simp add: queued_def)
  have parts: "{..<?n} = ?F \<union> ?Q" "?F \<inter> ?Q = {}" "finite ?F"
    using qlt by (auto simp: settled_def)
  have onF: "(\<Sum>k \<in> ?F. slot_mass (prob w, alias_tab w) k j)
           = (\<Sum>k \<in> ?F. slot_mass (prob ?v, alias_tab ?v) k j)"
  proof (rule sum.cong)
    fix k assume "k \<in> ?F"
    then have "k < ?n" "k \<notin> ?Q" by (simp_all add: settled_def)
    then show "slot_mass (prob w, alias_tab w) k j = slot_mass (prob ?v, alias_tab ?v) k j"
      using len by (simp add: slot_mass_def w_def alias_finish_alias alias_finish_prob
          cong: option.case_cong)
  qed simp
  have onQ: "(\<Sum>k \<in> ?Q. slot_mass (prob w, alias_tab w) k j) = (\<Sum>k \<in> ?Q. if k = j then 1 else 0)"
  proof (rule sum.cong)
    fix k assume "k \<in> ?Q"
    then show "slot_mass (prob w, alias_tab w) k j = (if k = j then 1 else 0)"
      using len qlt by (simp add: slot_mass_def w_def alias_finish_prob clamp01_def
          cong: option.case_cong)
  qed simp
  have "(\<Sum>k<?n. slot_mass (prob w, alias_tab w) k j)
      = (\<Sum>k \<in> ?F. slot_mass (prob w, alias_tab w) k j)
        + (\<Sum>k \<in> ?Q. slot_mass (prob w, alias_tab w) k j)"
    unfolding parts(1) using parts(2,3) finQ by (rule_tac sum.union_disjoint) auto
  also have "\<dots> = (\<Sum>k \<in> ?F. slot_mass (prob ?v, alias_tab ?v) k j)
                  + (if j \<in> ?Q then 1 else 0)"
    unfolding onF onQ using finQ by simp
  also have "\<dots> = np ! j"
    using mass j unit by (auto split: if_splits)
  finally show ?thesis .
qed


lemma sum_nth_sum_list: "(\<Sum>k<length ws. ws ! k) = sum_list (ws :: real list)"
  by (simp add: sum_list_sum_nth atLeast0LessThan)

lemma sum_list_pos_real:
  "ws \<noteq> [] \<Longrightarrow> \<forall>x \<in> set ws. 0 < x \<Longrightarrow> 0 < sum_list (ws :: real list)"
  by (induction ws) (auto intro: add_pos_nonneg sum_list_nonneg less_imp_le)

lemma InitAliasTable_Inr:
  assumes ne: "edge_weight \<noteq> []" and pos: "\<forall>x \<in> set edge_weight. 0 < x"
    and ok: "ok A_alias" "ok A_prob" "ok A_norm_prob" "ok A_large_block" "ok A_small_block"
  shows "InitAliasTable ok edge_weight =
           Inr (prob (alias_finish (alias_pair (alias_classify (norm_weights edge_weight)))),
                alias_tab (alias_finish (alias_pair (alias_classify (norm_weights edge_weight)))))"
proof -
  have s: "fold (\<lambda>k s. s + edge_weight ! k) [0..<length edge_weight] 0 = sum_list edge_weight"
    by (simp add: fold_add_nth sum_nth_sum_list)
  have "sum_list edge_weight \<noteq> 0"
    using sum_list_pos_real [OF ne pos] by simp
  then show ?thesis
    using ok by (simp add: InitAliasTable_def s Let_def norm_weights_def)
qed

lemma norm_weights_props:
  assumes ne: "ws \<noteq> []" and pos: "\<forall>x \<in> set ws. 0 < x"
  shows "length (norm_weights ws) = length ws"
    and "\<forall>x \<in> set (norm_weights ws). 0 < x"
    and "(\<Sum>j<length (norm_weights ws). norm_weights ws ! j) = real (length (norm_weights ws))"
    and "j < length ws \<Longrightarrow> norm_weights ws ! j = ws ! j * real (length ws) / sum_list ws"
proof -
  have sp: "0 < sum_list ws" by (rule sum_list_pos_real [OF ne pos])
  have np: "0 < length ws" using ne by simp
  show len: "length (norm_weights ws) = length ws" by (simp add: norm_weights_def)
  show "\<forall>x \<in> set (norm_weights ws). 0 < x"
    using pos sp np by (auto simp: norm_weights_def)
  show nth: "j < length ws \<Longrightarrow> norm_weights ws ! j = ws ! j * real (length ws) / sum_list ws"
    by (simp add: norm_weights_def)
  have "(\<Sum>j<length ws. norm_weights ws ! j) = (\<Sum>j<length ws. ws ! j * real (length ws) / sum_list ws)"
    by (rule sum.cong) (simp_all add: norm_weights_def)
  also have "\<dots> = (\<Sum>j<length ws. ws ! j) * real (length ws) / sum_list ws"
    by (simp add: sum_distrib_right sum_divide_distrib)
  also have "\<dots> = real (length ws)"
    using sp by (simp add: sum_nth_sum_list)
  finally show "(\<Sum>j<length (norm_weights ws). norm_weights ws ! j) = real (length (norm_weights ws))"
    by (simp add: len)
qed

lemma trunc_unit_index:
  assumes "0 \<le> r" "r < 1" "0 < n"
  shows "0 \<le> trunc_to_int (real n * r)" and "trunc_to_int (real n * r) < int n"
proof -
  have nn: "0 \<le> real n * r" using assms by simp
  then show "0 \<le> trunc_to_int (real n * r)" by (simp add: trunc_to_int_def)
  have "real n * r < real n * 1"
    using assms by (intro mult_strict_left_mono) simp_all
  then have "\<lfloor>real n * r\<rfloor> < int n" by (simp add: floor_less_iff)
  with nn show "trunc_to_int (real n * r) < int n" by (simp add: trunc_to_int_def)
qed

lemma SampleAnEdge_region:
  assumes "k < length (fst tbl)" "length (snd tbl) = length (fst tbl)"
    and "fst tbl ! k = Some p" and "trunc_to_int (real n * r1) = int k"
  shows "SampleAnEdge tbl n r1 r2 = Inr j
           \<longleftrightarrow> (k = j \<and> r2 < p) \<or> (p \<le> r2 \<and> snd tbl ! k = Some j)"
  using assms by (auto simp: SampleAnEdge_def rd_def Let_def split: option.splits)

text \<open>
  C1. For a non-empty vector of positive weights, the table \<open>InitAliasTable\<close> builds
  reproduces the distribution proportional to the weights: for every edge \<open>j\<close>, the area
  of the set of pairs \<open>(r1, r2)\<close> of the unit square on which \<open>SampleAnEdge\<close> returns
  \<open>j\<close> is \<open>w[j] / sum w\<close>. The second part of the statement is the description of that
  set that \<open>sample_mass\<close> measures: on the strip of the slot \<open>k\<close>, \<open>SampleAnEdge\<close> returns
  \<open>j\<close> exactly when \<open>k = j\<close> and \<open>r2 < prob[k]\<close>, or \<open>prob[k] \<le> r2\<close> and
  \<open>alias[k] = j\<close>. The arithmetic is that of the reals.
\<close>

theorem C1_alias_exact:
  assumes ne: "edge_weight \<noteq> []" and pos: "\<forall>x \<in> set edge_weight. 0 < x"
    and ok: "ok A_alias" "ok A_prob" "ok A_norm_prob" "ok A_large_block" "ok A_small_block"
    and j: "j < length edge_weight"
  shows "\<exists>tbl. InitAliasTable ok edge_weight = Inr tbl
           \<and> sample_mass tbl (length edge_weight) j = edge_weight ! j / sum_list edge_weight
           \<and> (\<forall>r1 r2 k. 0 \<le> r1 \<longrightarrow> r1 < 1
                 \<longrightarrow> trunc_to_int (real (length edge_weight) * r1) = int k
                 \<longrightarrow> k < length edge_weight
                   \<and> (\<exists>p. fst tbl ! k = Some p \<and> 0 < p \<and> p \<le> 1
                         \<and> (SampleAnEdge tbl (length edge_weight) r1 r2 = Inr j
                              \<longleftrightarrow> (k = j \<and> r2 < p) \<or> (p \<le> r2 \<and> snd tbl ! k = Some j))))"
proof -
  let ?n = "length edge_weight"
  let ?np = "norm_weights edge_weight"
  let ?w = "alias_finish (alias_pair (alias_classify ?np))"
  let ?tbl = "(prob ?w, alias_tab ?w)"
  note np = norm_weights_props [OF ne pos]
  have "(\<Sum>k<length ?np. slot_mass ?tbl k j) = ?np ! j"
    using np(2) np(3) j by (intro alias_build_mass) (simp_all add: np(1))
  then have "sample_mass ?tbl ?n j = (edge_weight ! j * real ?n / sum_list edge_weight) / real ?n"
    using j by (simp add: sample_mass_def np(1) np(4))
  also have "\<dots> = edge_weight ! j / sum_list edge_weight"
    using ne by simp
  finally have mass: "sample_mass ?tbl ?n j = edge_weight ! j / sum_list edge_weight" .
  have n0: "0 < ?n" using ne by simp
  have shape: "\<And>k. k < ?n \<Longrightarrow>
      length (prob ?w) = ?n \<and> length (alias_tab ?w) = ?n
         \<and> ((prob ?w ! k = Some 1 \<and> alias_tab ?w ! k = None)
            \<or> (\<exists>p l. prob ?w ! k = Some p \<and> 0 < p \<and> p < 1 \<and> alias_tab ?w ! k = Some l
                      \<and> l < ?n))"
    using alias_build_shape [OF np(2)] by (simp add: np(1))
  have region: "\<forall>r1 r2 k. 0 \<le> r1 \<longrightarrow> r1 < 1
                 \<longrightarrow> trunc_to_int (real ?n * r1) = int k
                 \<longrightarrow> k < ?n
                   \<and> (\<exists>p. fst ?tbl ! k = Some p \<and> 0 < p \<and> p \<le> 1
                         \<and> (SampleAnEdge ?tbl ?n r1 r2 = Inr j
                              \<longleftrightarrow> (k = j \<and> r2 < p) \<or> (p \<le> r2 \<and> snd ?tbl ! k = Some j)))"
  proof (intro allI impI)
    fix r1 r2 :: real and k :: nat
    assume r: "0 \<le> r1" "r1 < 1" and t: "trunc_to_int (real ?n * r1) = int k"
    have k: "k < ?n" using trunc_unit_index(2) [OF r n0] t by simp
    from shape [OF k] obtain p where p: "prob ?w ! k = Some p" "0 < p" "p \<le> 1"
      and len: "length (prob ?w) = ?n" "length (alias_tab ?w) = ?n"
      by force
    have "SampleAnEdge ?tbl ?n r1 r2 = Inr j
            \<longleftrightarrow> (k = j \<and> r2 < p) \<or> (p \<le> r2 \<and> snd ?tbl ! k = Some j)"
      by (rule SampleAnEdge_region) (simp_all add: len k p t)
    with k p show "k < ?n
                   \<and> (\<exists>p. fst ?tbl ! k = Some p \<and> 0 < p \<and> p \<le> 1
                         \<and> (SampleAnEdge ?tbl ?n r1 r2 = Inr j
                              \<longleftrightarrow> (k = j \<and> r2 < p) \<or> (p \<le> r2 \<and> snd ?tbl ! k = Some j)))"
      by simp
  qed
  show ?thesis
    using InitAliasTable_Inr [OF ne pos ok] mass region by simp
qed

theorem C1_alias_exact_witness:
  "\<exists>tbl. InitAliasTable (\<lambda>_. True) [1, 3] = Inr tbl
         \<and> sample_mass tbl (length [1, 3 :: real]) 0 = [1, 3] ! 0 / sum_list [1, 3]"
proof -
  have "\<exists>tbl. InitAliasTable (\<lambda>_. True) [1, 3] = Inr tbl
         \<and> sample_mass tbl (length [1, 3 :: real]) 0 = [1, 3] ! 0 / sum_list [1, 3]
         \<and> (\<forall>r1 r2 k. 0 \<le> r1 \<longrightarrow> r1 < 1
                 \<longrightarrow> trunc_to_int (real (length [1, 3 :: real]) * r1) = int k
                 \<longrightarrow> k < length [1, 3 :: real]
                   \<and> (\<exists>p. fst tbl ! k = Some p \<and> 0 < p \<and> p \<le> 1
                         \<and> (SampleAnEdge tbl (length [1, 3 :: real]) r1 r2 = Inr 0
                              \<longleftrightarrow> (k = 0 \<and> r2 < p) \<or> (p \<le> r2 \<and> snd tbl ! k = Some 0))))"
    by (rule C1_alias_exact) simp_all
  then show ?thesis by blast
qed

text \<open>
  C10. For a table built from a non-empty vector of positive weights and \<open>r1\<close>, \<open>r2\<close> in
  \<open>[0, 1)\<close>, \<open>SampleAnEdge\<close> returns an edge index below \<open>num_edges\<close>, with no read of a
  cell that was never written. Every slot \<open>k\<close> is of one of two kinds: its probability is
  1 and its alias cell was never assigned, and then \<open>SampleAnEdge\<close> returns \<open>k\<close> itself;
  or its probability is below 1 and its alias cell holds an edge index.
\<close>

theorem C10_sample_valid:
  assumes ne: "edge_weight \<noteq> []" and pos: "\<forall>x \<in> set edge_weight. 0 < x"
    and ok: "ok A_alias" "ok A_prob" "ok A_norm_prob" "ok A_large_block" "ok A_small_block"
    and r1: "0 \<le> r1" "r1 < 1" and r2: "r2 < 1"
  shows "\<exists>tbl. InitAliasTable ok edge_weight = Inr tbl
           \<and> (\<exists>j < length edge_weight. SampleAnEdge tbl (length edge_weight) r1 r2 = Inr j)
           \<and> (\<forall>k < length edge_weight.
                 (fst tbl ! k = Some 1 \<and> snd tbl ! k = None
                    \<and> (trunc_to_int (real (length edge_weight) * r1) = int k
                        \<longrightarrow> SampleAnEdge tbl (length edge_weight) r1 r2 = Inr k))
                 \<or> (\<exists>p l. fst tbl ! k = Some p \<and> 0 < p \<and> p < 1
                          \<and> snd tbl ! k = Some l \<and> l < length edge_weight))"
proof -
  let ?n = "length edge_weight"
  let ?np = "norm_weights edge_weight"
  let ?w = "alias_finish (alias_pair (alias_classify ?np))"
  let ?tbl = "(prob ?w, alias_tab ?w)"
  note np = norm_weights_props [OF ne pos]
  have shape: "\<And>k. k < ?n \<Longrightarrow>
      length (prob ?w) = ?n \<and> length (alias_tab ?w) = ?n
         \<and> ((prob ?w ! k = Some 1 \<and> alias_tab ?w ! k = None)
            \<or> (\<exists>p l. prob ?w ! k = Some p \<and> 0 < p \<and> p < 1 \<and> alias_tab ?w ! k = Some l
                      \<and> l < ?n))"
    using alias_build_shape [OF np(2)] by (simp add: np(1))
  have n0: "0 < ?n" using ne by simp
  have len: "length (prob ?w) = ?n" "length (alias_tab ?w) = ?n"
    using shape [OF n0] by simp_all
  define k0 where "k0 = nat (trunc_to_int (real ?n * r1))"
  have k0: "trunc_to_int (real ?n * r1) = int k0" "k0 < ?n"
    using trunc_unit_index [OF r1 n0] by (simp_all add: k0_def)
  have ex: "\<exists>j < ?n. SampleAnEdge ?tbl ?n r1 r2 = Inr j"
    using shape [OF k0(2)] k0 r2 len
    by (auto simp: SampleAnEdge_def rd_def Let_def)
  have slots: "\<forall>k < ?n.
                 (fst ?tbl ! k = Some 1 \<and> snd ?tbl ! k = None
                    \<and> (trunc_to_int (real ?n * r1) = int k
                        \<longrightarrow> SampleAnEdge ?tbl ?n r1 r2 = Inr k))
                 \<or> (\<exists>p l. fst ?tbl ! k = Some p \<and> 0 < p \<and> p < 1
                          \<and> snd ?tbl ! k = Some l \<and> l < ?n)"
  proof (intro allI impI)
    fix k assume k: "k < ?n"
    from shape [OF k] show "(fst ?tbl ! k = Some 1 \<and> snd ?tbl ! k = None
                    \<and> (trunc_to_int (real ?n * r1) = int k
                        \<longrightarrow> SampleAnEdge ?tbl ?n r1 r2 = Inr k))
                 \<or> (\<exists>p l. fst ?tbl ! k = Some p \<and> 0 < p \<and> p < 1
                          \<and> snd ?tbl ! k = Some l \<and> l < ?n)"
      using k r2 len by (auto simp: SampleAnEdge_def rd_def Let_def)
  qed
  show ?thesis
    using InitAliasTable_Inr [OF ne pos ok] ex slots by simp
qed

theorem C10_sample_valid_witness:
  "\<exists>tbl. InitAliasTable (\<lambda>_. True) [1, 3] = Inr tbl
         \<and> (\<exists>j < length [1, 3 :: real]. SampleAnEdge tbl (length [1, 3 :: real]) (1/2) (3/4) = Inr j)"
proof -
  have "\<exists>tbl. InitAliasTable (\<lambda>_. True) [1, 3] = Inr tbl
           \<and> (\<exists>j < length [1, 3 :: real]. SampleAnEdge tbl (length [1, 3 :: real]) (1/2) (3/4) = Inr j)
           \<and> (\<forall>k < length [1, 3 :: real].
                 (fst tbl ! k = Some 1 \<and> snd tbl ! k = None
                    \<and> (trunc_to_int (real (length [1, 3 :: real]) * (1/2)) = int k
                        \<longrightarrow> SampleAnEdge tbl (length [1, 3 :: real]) (1/2) (3/4) = Inr k))
                 \<or> (\<exists>p l. fst tbl ! k = Some p \<and> 0 < p \<and> p < 1
                          \<and> snd tbl ! k = Some l \<and> l < length [1, 3 :: real]))"
    by (rule C10_sample_valid) simp_all
  then show ?thesis by blast
qed

subsection \<open>The table of negative samples\<close>







































subsection \<open>One sample of a worker thread\<close>

lemma row_length: "a * n + n \<le> length M \<Longrightarrow> length (row M n a) = n"
  by (simp add: row_def)

lemma row_nth: "a * n + n \<le> length M \<Longrightarrow> c < n \<Longrightarrow> row M n a ! c = M ! (a * n + c)"
  by (simp add: row_def)

lemma put_row_length:
  "a * n + n \<le> length M \<Longrightarrow> length r = n \<Longrightarrow> length (put_row M n a r) = length M"
  by (simp add: put_row_def)

lemma put_row_nth:
  assumes "a * n + n \<le> length M" "length r = n" "i < length M"
  shows "put_row M n a r ! i = (if a * n \<le> i \<and> i < a * n + n then r ! (i - a * n) else M ! i)"
proof -
  consider "i < a * n" | "a * n \<le> i" "i < a * n + n" | "a * n + n \<le> i" by linarith
  then show ?thesis
  proof cases
    case 1
    then show ?thesis using assms by (simp add: put_row_def nth_append)
  next
    case 2
    then have "i - a * n < n" by linarith
    with 2 show ?thesis using assms by (simp add: put_row_def nth_append)
  next
    case 3
    then have "\<not> i < a * n" "\<not> i - a * n < n" by simp_all
    moreover have "a * n + n + (i - a * n - n) = i" using 3 by simp
    ultimately show ?thesis using assms 3 by (simp add: put_row_def nth_append min_def)
  qed
qed

lemma axpy_length: "length (axpy g xs ys) = length ys"
  by (simp add: axpy_def)

lemma axpy_nth: "c < length ys \<Longrightarrow> axpy g xs ys ! c = ys ! c + g * xs ! c"
  by (simp add: axpy_def)

text \<open>A loop that adds to the cells off .. off + n - 1 of a list, reading other cells of it.\<close>

lemma fold_add_cells:
  assumes "off + n \<le> length M"
    and h: "\<And>c M'. c < n \<Longrightarrow> length M' = length M \<Longrightarrow>
           (\<forall>i < length M. \<not> (off \<le> i \<and> i < off + c) \<longrightarrow> M' ! i = M ! i) \<Longrightarrow> h c M' = h0 c"
  shows "m \<le> n \<Longrightarrow>
     length (fold (\<lambda>c M'. M'[off + c := M' ! (off + c) + h c M']) [0..<m] M) = length M
     \<and> (\<forall>i < length M.
           fold (\<lambda>c M'. M'[off + c := M' ! (off + c) + h c M']) [0..<m] M ! i
             = (if off \<le> i \<and> i < off + m then M ! i + h0 (i - off) else M ! i))"
proof (induction m)
  case 0
  then show ?case by auto
next
  case (Suc m)
  let ?R = "fold (\<lambda>c M'. M'[off + c := M' ! (off + c) + h c M']) [0..<m] M"
  from Suc have len: "length ?R = length M"
    and nth: "\<forall>i < length M. ?R ! i = (if off \<le> i \<and> i < off + m then M ! i + h0 (i - off) else M ! i)"
    and m: "m < n"
    by simp_all
  have hm: "h m ?R = h0 m"
    using nth by (intro h [OF m len]) simp
  have in_range: "off + m < length M" using assms(1) m by simp
  have cur: "?R ! (off + m) = M ! (off + m)" using nth in_range by simp
  have step: "fold (\<lambda>c M'. M'[off + c := M' ! (off + c) + h c M']) [0..<Suc m] M
                = ?R[off + m := M ! (off + m) + h0 m]"
    by (simp add: hm cur)
  show ?case
    unfolding step using len nth in_range
    by (auto simp: nth_list_update)
qed


lemma fold_row_update:
  assumes bnd: "t * n + n \<le> length M" and src: "length src = n"
    and h: "\<And>c M'. c < n \<Longrightarrow> length M' = length M \<Longrightarrow>
           (\<forall>i < length M. \<not> (t * n \<le> i \<and> i < t * n + c) \<longrightarrow> M' ! i = M ! i)
           \<Longrightarrow> h c M' = g * src ! c"
  shows "fold (\<lambda>c M'. M'[t * n + c := M' ! (t * n + c) + h c M']) [0..<n] M
           = put_row M n t (axpy g src (row M n t))"
proof (rule nth_equalityI)
  let ?R = "fold (\<lambda>c M'. M'[t * n + c := M' ! (t * n + c) + h c M']) [0..<n] M"
  from fold_add_cells [where h = h and ?h0.0 = "\<lambda>c. g * src ! c", OF bnd h, of n]
  have F1: "length ?R = length M"
    and F2: "\<And>i. i < length M \<Longrightarrow>
               ?R ! i = (if t * n \<le> i \<and> i < t * n + n then M ! i + g * src ! (i - t * n)
                         else M ! i)"
    by blast+
  have rl: "length (axpy g src (row M n t)) = n"
    by (simp add: axpy_length row_length [OF bnd])
  show "length ?R = length (put_row M n t (axpy g src (row M n t)))"
    unfolding F1 put_row_length [OF bnd rl] ..
  fix i assume "i < length ?R"
  then have i: "i < length M" unfolding F1 .
  show "?R ! i = put_row M n t (axpy g src (row M n t)) ! i"
  proof (cases "t * n \<le> i \<and> i < t * n + n")
    case True
    then have c: "i - t * n < n" and e: "t * n + (i - t * n) = i" by linarith+
    have "row M n t ! (i - t * n) = M ! i"
      using row_nth [OF bnd c] e by simp
    then have "axpy g src (row M n t) ! (i - t * n) = M ! i + g * src ! (i - t * n)"
      using c by (simp add: axpy_nth row_length [OF bnd])
    then show ?thesis
      by (simp only: F2 [OF i] put_row_nth [OF bnd rl i] True if_True)
  next
    case False
    show ?thesis
      by (simp only: F2 [OF i] put_row_nth [OF bnd rl i] False if_False)
  qed
qed

lemma fold_put_context:
  "fold (\<lambda>c E. put_block E Emb_context (lv + c)
                  (get_block E Emb_context ! (lv + c) + g * emb_vertex E ! (lu + c))) cs E
     = E\<lparr>emb_context := fold (\<lambda>c M'. M'[lv + c := M' ! (lv + c) + g * emb_vertex E ! (lu + c)])
                             cs (emb_context E)\<rparr>"
  by (induction cs arbitrary: E) simp_all

lemma fold_put_vertex:
  "fold (\<lambda>c E. put_block E Emb_vertex (lv + c)
                  (get_block E Emb_vertex ! (lv + c) + g * emb_vertex E ! (lu + c))) cs E
     = E\<lparr>emb_vertex := fold (\<lambda>c M'. M'[lv + c := M' ! (lv + c) + g * M' ! (lu + c)])
                            cs (emb_vertex E)\<rparr>"
  by (induction cs arbitrary: E) simp_all

lemma fold_dot:
  assumes "u * n + n \<le> length U" "t * n + n \<le> length B"
  shows "fold (\<lambda>c x. x + U ! (u * n + c) * B ! (t * n + c)) [0..<n] 0 = dot (row U n u) (row B n t)"
proof -
  have "(\<Sum>c<n. U ! (u * n + c) * B ! (t * n + c)) = (\<Sum>c<n. row U n u ! c * row B n t ! c)"
    by (rule sum.cong) (simp_all add: row_nth assms)
  then show ?thesis
    by (simp add: fold_add_nth dot_def row_length assms)
qed

lemma fold_error:
  assumes "t * n + n \<le> length B" "length ve = n"
  shows "fold (\<lambda>c ve. ve[c := ve ! c + g * B ! (t * n + c)]) [0..<n] ve = axpy g (row B n t) ve"
proof -
  have "fold (\<lambda>c M'. M'[0 * n + c := M' ! (0 * n + c) + g * B ! (t * n + c)]) [0..<n] ve
          = put_row ve n 0 (axpy g (row B n t) (row ve n 0))"
    by (rule fold_row_update) (simp_all add: assms row_length row_nth)
  moreover have "row ve n 0 = ve" using assms by (simp add: row_def)
  moreover have "put_row ve n 0 (axpy g (row B n t) ve) = axpy g (row B n t) ve"
    using assms by (simp add: put_row_def axpy_length)
  ultimately show ?thesis by simp
qed


lemma rows_apart:
  assumes "c < (n::nat)" "c' < n" "u \<noteq> t"
  shows "\<not> (t * n \<le> u * n + c \<and> u * n + c < t * n + n)"
proof (cases "u < t")
  case True
  then have "Suc u \<le> t" by simp
  then have "Suc u * n \<le> t * n" by (rule mult_le_mono1)
  with assms(1) show ?thesis by simp
next
  case False
  with assms(3) have "Suc t \<le> u" by simp
  then have "Suc t * n \<le> u * n" by (rule mult_le_mono1)
  then show ?thesis by simp
qed

lemma vertex_row_update:
  assumes bu: "u * n + n \<le> length M" and bt: "t * n + n \<le> length M"
  shows "fold (\<lambda>c M'. M'[t * n + c := M' ! (t * n + c) + g * M' ! (u * n + c)]) [0..<n] M
           = put_row M n t (axpy g (row M n u) (row M n t))"
proof (rule fold_row_update [OF bt row_length [OF bu]])
  fix c M'
  assume c: "c < n" and len: "length M' = length M"
    and same: "\<forall>i < length M. \<not> (t * n \<le> i \<and> i < t * n + c) \<longrightarrow> M' ! i = M ! i"
  have in_range: "u * n + c < length M" using bu c by simp
  have "\<not> (t * n \<le> u * n + c \<and> u * n + c < t * n + c)"
  proof (cases "u = t")
    case True
    then show ?thesis by simp
  next
    case False
    from rows_apart [OF c c False] c show ?thesis by arith
  qed
  with same in_range have "M' ! (u * n + c) = M ! (u * n + c)" by blast
  then show "g * M' ! (u * n + c) = g * row M n u ! c"
    by (simp add: row_nth [OF bu c])
qed

lemma context_row_update:
  assumes bu: "u * n + n \<le> length U" and bt: "t * n + n \<le> length M"
  shows "fold (\<lambda>c M'. M'[t * n + c := M' ! (t * n + c) + g * U ! (u * n + c)]) [0..<n] M
           = put_row M n t (axpy g (row U n u) (row M n t))"
  by (rule fold_row_update [OF bt row_length [OF bu]]) (simp add: row_nth [OF bu])

lemma Update_eq_pair_update:
  assumes bu: "u * n + n \<le> length (emb_vertex E)" and bt: "t * n + n \<le> length (get_block E b)"
    and ve: "length ve = n"
  shows "Update n lr sig E (u * n) (b, t * n) ve label = pair_update n lr sig u b (E, ve) (t, label)"
proof -
  have x: "fold (\<lambda>c x. x + emb_vertex E ! (u * n + c) * get_block E b ! (t * n + c)) [0..<n] 0
             = dot (row (emb_vertex E) n u) (row (get_block E b) n t)"
    by (rule fold_dot [OF bu bt])
  have err: "\<And>g. fold (\<lambda>c ve. ve[c := ve ! c + g * get_block E b ! (t * n + c)]) [0..<n] ve
             = axpy g (row (get_block E b) n t) ve"
    by (rule fold_error [OF bt ve])
  have emb: "\<And>g. fold (\<lambda>c E. put_block E b (t * n + c)
                               (get_block E b ! (t * n + c) + g * emb_vertex E ! (u * n + c)))
                     [0..<n] E
             = put_block_row E b n t (axpy g (row (emb_vertex E) n u) (row (get_block E b) n t))"
  proof (cases b)
    case Emb_vertex
    fix g
    from bt Emb_vertex have bt': "t * n + n \<le> length (emb_vertex E)" by simp
    show "fold (\<lambda>c E. put_block E b (t * n + c)
                               (get_block E b ! (t * n + c) + g * emb_vertex E ! (u * n + c)))
                     [0..<n] E
             = put_block_row E b n t (axpy g (row (emb_vertex E) n u) (row (get_block E b) n t))"
      unfolding Emb_vertex fold_put_vertex vertex_row_update [OF bu bt'] by simp
  next
    case Emb_context
    fix g
    from bt Emb_context have bt': "t * n + n \<le> length (emb_context E)" by simp
    show "fold (\<lambda>c E. put_block E b (t * n + c)
                               (get_block E b ! (t * n + c) + g * emb_vertex E ! (u * n + c)))
                     [0..<n] E
             = put_block_row E b n t (axpy g (row (emb_vertex E) n u) (row (get_block E b) n t))"
      unfolding Emb_context fold_put_context context_row_update [OF bu bt'] by simp
  qed
  show ?thesis
    unfolding Update_def pair_update_def Let_def fst_conv snd_conv x err emb
    using bu bt ve by (simp split: sum.splits)
qed


lemma row_bound: "a < nv \<Longrightarrow> a * n + n \<le> nv * (n::nat)"
proof -
  assume "a < nv"
  then have "Suc a \<le> nv" by simp
  then have "Suc a * n \<le> nv * n" by (rule mult_le_mono1)
  then show ?thesis by (simp add: add.commute)
qed

lemma get_block_length: "emb_wf nv n E \<Longrightarrow> length (get_block E b) = nv * n"
  by (cases b) (simp_all add: emb_wf_def)

lemma put_block_row_wf:
  assumes "emb_wf nv n E" "a < nv" "length r = n"
  shows "emb_wf nv n (put_block_row E b n a r)"
  using assms row_bound [of a nv n]
  by (cases b) (simp_all add: emb_wf_def put_row_length)

lemma pair_update_wf:
  assumes "emb_wf nv n E" "t < nv" "length ve = n"
    and "pair_update n lr sig u b (E, ve) (t, label) = Inr (E', ve')"
  shows "emb_wf nv n E' \<and> length ve' = n"
proof -
  have rl: "length (row (get_block E b) n t) = n"
    using row_length [of t n "get_block E b"] row_bound [OF assms(2), of n]
      get_block_length [OF assms(1), of b] by simp
  from assms(4) show ?thesis
    using put_block_row_wf [OF assms(1,2), of _ b] rl assms(3)
    by (auto simp: pair_update_def Let_def axpy_length split: sum.splits)
qed

lemma order_updates:
  assumes "order cfg = 1 \<or> order cfg = 2"
  shows "(case (if order cfg = 1 then Update n lr sig E lu (Emb_vertex, lv) ve label
                else Inr (E, ve)) of
            Inl e \<Rightarrow> Inl e
          | Inr (E1, ve1) \<Rightarrow>
              (case (if order cfg = 2 then Update n lr sig E1 lu (Emb_context, lv) ve1 label
                     else Inr (E1, ve1)) of
                 Inl e \<Rightarrow> Inl e
               | Inr (E2, ve2) \<Rightarrow> K E2 ve2))
       = (case Update n lr sig E lu (if order cfg = 1 then Emb_vertex else Emb_context, lv) ve label of
            Inl e \<Rightarrow> Inl e
          | Inr (E2, ve2) \<Rightarrow> K E2 ve2)"
  using assms by (auto split: sum.splits)

lemma Rand_index: "snd (Rand sd) < neg_table_size"
  by (simp add: Rand_def Let_def neg_table_size_def)

lemma negative_sampling_step:
  assumes ord: "order cfg = 1 \<or> order cfg = 2"
    and wf: "emb_wf nv (emb_dim cfg) E" "length ve = emb_dim cfg" and u: "u < nv"
    and t: "0 \<le> target" "nat target < nv"
  shows "(if target < 0 then Inl OutOfBounds
          else
              (let lv = nat target * emb_dim cfg;
                   r1 = (if order cfg = 1
                         then Update (emb_dim cfg) lr (sigmoid_table tbl) E (u * emb_dim cfg)
                                (Emb_vertex, lv) ve label
                         else Inr (E, ve))
               in case r1 of
                    Inl e \<Rightarrow> Inl e
                  | Inr (E1, vec_error1) \<Rightarrow>
                     (let r2 = (if order cfg = 2
                                then Update (emb_dim cfg) lr (sigmoid_table tbl) E1 (u * emb_dim cfg)
                                       (Emb_context, lv) vec_error1 label
                                else Inr (E1, vec_error1))
                      in case r2 of
                           Inl e \<Rightarrow> Inl e
                         | Inr (E2, vec_error2) \<Rightarrow> K E2 vec_error2)))
       = (case pair_update (emb_dim cfg) lr (sigmoid_table tbl) u
                 (if order cfg = 1 then Emb_vertex else Emb_context) (E, ve) (nat target, label) of
            Inl e \<Rightarrow> Inl e
          | Inr (E2, ve2) \<Rightarrow> K E2 ve2)"
proof -
  let ?n = "emb_dim cfg"
  let ?b = "if order cfg = 1 then Emb_vertex else Emb_context"
  have bu: "u * ?n + ?n \<le> length (emb_vertex E)"
    using wf(1) row_bound [OF u, of ?n] by (simp add: emb_wf_def)
  have bt: "nat target * ?n + ?n \<le> length (get_block E ?b)"
    using get_block_length [OF wf(1), of ?b] row_bound [OF t(2), of ?n] by simp
  note eq = Update_eq_pair_update [OF bu bt wf(2), of lr "sigmoid_table tbl" label]
  show ?thesis
    unfolding Let_def order_updates [OF ord] eq using t(1) by simp
qed


lemma negative_sampling_unfold:
  "negative_sampling cfg tbl lr lu v d (Suc m) (E, ve, sd) =
     (case (if d = 0 then Inr (int v, 1)
            else case cell (neg_table tbl) (int (snd (Rand sd))) of
                   Inl e \<Rightarrow> Inl e | Inr target \<Rightarrow> Inr (target, 0)) of
        Inl e \<Rightarrow> Inl e
      | Inr (target, label) \<Rightarrow>
         (if target < 0 then Inl OutOfBounds
          else
              (let lv = nat target * emb_dim cfg;
                   r1 = (if order cfg = 1
                         then Update (emb_dim cfg) lr (sigmoid_table tbl) E lu
                                (Emb_vertex, lv) ve label
                         else Inr (E, ve))
               in case r1 of
                    Inl e \<Rightarrow> Inl e
                  | Inr (E1, vec_error1) \<Rightarrow>
                     (let r2 = (if order cfg = 2
                                then Update (emb_dim cfg) lr (sigmoid_table tbl) E1 lu
                                       (Emb_context, lv) vec_error1 label
                                else Inr (E1, vec_error1))
                      in case r2 of
                           Inl e \<Rightarrow> Inl e
                         | Inr (E2, vec_error2) \<Rightarrow>
                             negative_sampling cfg tbl lr lu v (d + 1) m
                               (E2, vec_error2, if d = 0 then sd else fst (Rand sd))))))"
  by (simp add: Let_def split: sum.splits prod.splits)

lemma negative_sampling_negatives:
  assumes ord: "order cfg = 1 \<or> order cfg = 2" and u: "u < nv"
    and neg: "length (neg_table tbl) = neg_table_size"
      "\<forall>t \<in> set (neg_table tbl). 0 \<le> t \<and> t < int nv"
  shows "0 < d \<Longrightarrow> emb_wf nv (emb_dim cfg) E \<Longrightarrow> length ve = emb_dim cfg \<Longrightarrow>
     negative_sampling cfg tbl lr (u * emb_dim cfg) v d m (E, ve, sd)
       = (case pairs_update (emb_dim cfg) lr (sigmoid_table tbl) u
                 (if order cfg = 1 then Emb_vertex else Emb_context) (E, ve)
                 (map (\<lambda>t. (nat t, 0)) (negative_targets (neg_table tbl) sd m)) of
            Inl e \<Rightarrow> Inl e
          | Inr (E1, err) \<Rightarrow> Inr (E1, err, seed_after sd m))"
proof (induction m arbitrary: d E ve sd)
  case 0
  then show ?case by simp
next
  case (Suc m)
  let ?n = "emb_dim cfg"
  let ?b = "if order cfg = 1 then Emb_vertex else Emb_context"
  let ?t = "neg_table tbl ! snd (Rand sd)"
  have idx: "snd (Rand sd) < length (neg_table tbl)"
    using Rand_index [of sd] neg(1) by simp
  then have tin: "?t \<in> set (neg_table tbl)" by simp
  with neg(2) have t: "0 \<le> ?t" "nat ?t < nv" by auto
  have c: "cell (neg_table tbl) (int (snd (Rand sd))) = Inr ?t"
    using idx by (simp add: cell_def)
  have d0: "d \<noteq> 0" using Suc.prems(1) by simp
  note step = negative_sampling_step [OF ord Suc.prems(2,3) u t, of lr tbl 0
      "\<lambda>E2 ve2. negative_sampling cfg tbl lr (u * ?n) v (d + 1) m (E2, ve2, fst (Rand sd))"]
  have unf: "negative_sampling cfg tbl lr (u * ?n) v d (Suc m) (E, ve, sd)
      = (case pair_update ?n lr (sigmoid_table tbl) u ?b (E, ve) (nat ?t, 0) of
            Inl e \<Rightarrow> Inl e
          | Inr (E2, ve2) \<Rightarrow> negative_sampling cfg tbl lr (u * ?n) v (d + 1) m (E2, ve2, fst (Rand sd)))"
    by (simp only: negative_sampling_unfold d0 if_False c sum.case prod.case step)
  show ?case
  proof (cases "pair_update ?n lr (sigmoid_table tbl) u ?b (E, ve) (nat ?t, 0)")
    case (Inl e)
    then show ?thesis unfolding unf by simp
  next
    case (Inr st')
    obtain E' ve' where st': "st' = (E', ve')" by (cases st')
    from pair_update_wf [OF Suc.prems(2) t(2) Suc.prems(3) Inr [unfolded st']]
    have wf': "emb_wf nv ?n E'" "length ve' = ?n" by simp_all
    have "0 < d + 1" by simp
    note IH = Suc.IH [OF this wf', of "fst (Rand sd)"]
    have p: "pairs_update ?n lr (sigmoid_table tbl) u ?b (E, ve)
               (map (\<lambda>t. (nat t, 0)) (negative_targets (neg_table tbl) sd (Suc m)))
           = pairs_update ?n lr (sigmoid_table tbl) u ?b (E', ve')
               (map (\<lambda>t. (nat t, 0)) (negative_targets (neg_table tbl) (fst (Rand sd)) m))"
      by (simp add: Inr st')
    have sa: "seed_after sd (Suc m) = seed_after (fst (Rand sd)) m" by simp
    show ?thesis
      by (simp only: unf p sa Inr st' sum.case prod.case IH)
  qed
qed


lemma negative_sampling_pairs:
  assumes ord: "order cfg = 1 \<or> order cfg = 2" and u: "u < nv" and v: "v < nv"
    and neg: "length (neg_table tbl) = neg_table_size"
      "\<forall>t \<in> set (neg_table tbl). 0 \<le> t \<and> t < int nv"
    and wf: "emb_wf nv (emb_dim cfg) E" "length ve = emb_dim cfg"
  shows "negative_sampling cfg tbl lr (u * emb_dim cfg) v 0 (num_negative cfg + 1) (E, ve, sd)
       = (case pairs_update (emb_dim cfg) lr (sigmoid_table tbl) u
                 (if order cfg = 1 then Emb_vertex else Emb_context) (E, ve)
                 (sample_pairs cfg tbl v sd) of
            Inl e \<Rightarrow> Inl e
          | Inr (E1, err) \<Rightarrow> Inr (E1, err, seed_after sd (num_negative cfg)))"
proof -
  let ?n = "emb_dim cfg"
  let ?b = "if order cfg = 1 then Emb_vertex else Emb_context"
  let ?m = "num_negative cfg"
  have t: "0 \<le> int v" "nat (int v) < nv" using v by simp_all
  note step = negative_sampling_step [OF ord wf u t, of lr tbl 1
      "\<lambda>E2 ve2. negative_sampling cfg tbl lr (u * ?n) v (0 + 1) ?m (E2, ve2, sd)"]
  have unf: "negative_sampling cfg tbl lr (u * ?n) v 0 (Suc ?m) (E, ve, sd)
      = (case pair_update ?n lr (sigmoid_table tbl) u ?b (E, ve) (nat (int v), 1) of
            Inl e \<Rightarrow> Inl e
          | Inr (E2, ve2) \<Rightarrow> negative_sampling cfg tbl lr (u * ?n) v (0 + 1) ?m (E2, ve2, sd))"
    by (simp only: negative_sampling_unfold refl if_True sum.case prod.case step)
  show ?thesis
  proof (cases "pair_update ?n lr (sigmoid_table tbl) u ?b (E, ve) (v, 1)")
    case (Inl e)
    then show ?thesis using unf by (simp add: sample_pairs_def)
  next
    case (Inr st')
    obtain E' ve' where st': "st' = (E', ve')" by (cases st')
    from pair_update_wf [OF wf(1) v wf(2) Inr [unfolded st']]
    have wf': "emb_wf nv ?n E'" "length ve' = ?n" by simp_all
    have "0 < (0::nat) + 1" by simp
    note rest = negative_sampling_negatives [OF ord u neg this wf', of lr v ?m sd]
    have p: "pairs_update ?n lr (sigmoid_table tbl) u ?b (E, ve) (sample_pairs cfg tbl v sd)
           = pairs_update ?n lr (sigmoid_table tbl) u ?b (E', ve')
               (map (\<lambda>t. (nat t, 0)) (negative_targets (neg_table tbl) sd ?m))"
      by (simp add: sample_pairs_def Inr st')
    have n1: "?m + 1 = Suc ?m" by simp
    have nv: "nat (int v) = v" by simp
    show ?thesis
      by (simp only: n1 unf nv p Inr st' sum.case prod.case rest)
  qed
qed

lemma fold_put_error:
  "fold (\<lambda>c E. put_block E Emb_vertex (c + lu) (emb_vertex E ! (c + lu) + err ! c)) cs E
     = E\<lparr>emb_vertex := fold (\<lambda>c M'. M'[lu + c := M' ! (lu + c) + err ! c]) cs (emb_vertex E)\<rparr>"
  by (induction cs arbitrary: E) (simp_all add: add.commute)

lemma apply_error:
  assumes bu: "u * n + n \<le> length (emb_vertex E)" and err: "length err = n"
  shows "fold (\<lambda>c E. put_block E Emb_vertex (c + u * n) (emb_vertex E ! (c + u * n) + err ! c))
           [0..<n] E
         = put_block_row E Emb_vertex n u (axpy 1 err (row (emb_vertex E) n u))"
proof -
  have "fold (\<lambda>c M'. M'[u * n + c := M' ! (u * n + c) + err ! c]) [0..<n] (emb_vertex E)
          = put_row (emb_vertex E) n u (axpy 1 err (row (emb_vertex E) n u))"
    by (rule fold_row_update [OF bu err]) simp
  then show ?thesis unfolding fold_put_error by simp
qed

lemma pairs_update_wf:
  "emb_wf nv n E \<Longrightarrow> length ve = n \<Longrightarrow> \<forall>p \<in> set pairs. fst p < nv \<Longrightarrow>
   pairs_update n lr sig u b (E, ve) pairs = Inr (E', ve') \<Longrightarrow>
   emb_wf nv n E' \<and> length ve' = n"
proof (induction pairs arbitrary: E ve)
  case Nil
  then show ?case by simp
next
  case (Cons p pairs)
  obtain t label where p: "p = (t, label)" by (cases p)
  from Cons.prems(4) obtain E1 ve1 where
    one: "pair_update n lr sig u b (E, ve) (t, label) = Inr (E1, ve1)"
    and rest: "pairs_update n lr sig u b (E1, ve1) pairs = Inr (E', ve')"
    by (auto simp: p split: sum.splits)
  from Cons.prems(3) have t: "t < nv" by (simp add: p)
  from pair_update_wf [OF Cons.prems(1) t Cons.prems(2) one]
  have "emb_wf nv n E1" "length ve1 = n" by simp_all
  from Cons.IH [OF this _ rest] Cons.prems(3) show ?case by simp
qed


lemma row_put_row_other:
  assumes bu: "u * n + n \<le> length M" and bt: "t * n + n \<le> length M"
    and r: "length r = n" and ne: "u \<noteq> t"
  shows "row (put_row M n t r) n u = row M n u"
proof (rule nth_equalityI)
  have bu': "u * n + n \<le> length (put_row M n t r)"
    using bu by (simp add: put_row_length [OF bt r])
  show "length (row (put_row M n t r) n u) = length (row M n u)"
    by (simp add: row_length [OF bu] row_length [OF bu'])
  fix c assume "c < length (row (put_row M n t r) n u)"
  then have c: "c < n" by (simp add: row_length [OF bu'])
  have i: "u * n + c < length M" using bu c by simp
  from rows_apart [OF c c ne]
  have "put_row M n t r ! (u * n + c) = M ! (u * n + c)"
    by (simp only: put_row_nth [OF bt r i] if_False)
  then show "row (put_row M n t r) n u ! c = row M n u ! c"
    by (simp add: row_nth [OF bu c] row_nth [OF bu' c])
qed

lemma pair_update_source_row:
  assumes wf: "emb_wf nv n E" and t: "t < nv" and u: "u < nv"
    and one: "pair_update n lr sig u b (E, ve) (t, label) = Inr (E', ve')"
    and apart: "b = Emb_context \<or> t \<noteq> u"
  shows "row (emb_vertex E') n u = row (emb_vertex E) n u"
proof (cases b)
  case Emb_context
  with one show ?thesis
    by (auto simp: pair_update_def Let_def split: sum.splits)
next
  case Emb_vertex
  with apart have ne: "u \<noteq> t" by auto
  have bu: "u * n + n \<le> length (emb_vertex E)" and bt: "t * n + n \<le> length (emb_vertex E)"
    using wf row_bound [OF u, of n] row_bound [OF t, of n] by (simp_all add: emb_wf_def)
  from one Emb_vertex obtain g where
    "emb_vertex E' = put_row (emb_vertex E) n t
                       (axpy g (row (emb_vertex E) n u) (row (emb_vertex E) n t))"
    by (auto simp: pair_update_def Let_def split: sum.splits)
  then show ?thesis
    using row_put_row_other [OF bu bt _ ne] by (simp add: axpy_length row_length [OF bt])
qed

lemma pairs_update_source_row:
  "emb_wf nv n E \<Longrightarrow> length ve = n \<Longrightarrow> u < nv \<Longrightarrow> \<forall>p \<in> set pairs. fst p < nv \<Longrightarrow>
   b = Emb_context \<or> u \<notin> fst ` set pairs \<Longrightarrow>
   pairs_update n lr sig u b (E, ve) pairs = Inr (E', ve') \<Longrightarrow>
   row (emb_vertex E') n u = row (emb_vertex E) n u"
proof (induction pairs arbitrary: E ve)
  case Nil
  then show ?case by simp
next
  case (Cons p pairs)
  obtain t label where p: "p = (t, label)" by (cases p)
  from Cons.prems(6) obtain E1 ve1 where
    one: "pair_update n lr sig u b (E, ve) (t, label) = Inr (E1, ve1)"
    and rest: "pairs_update n lr sig u b (E1, ve1) pairs = Inr (E', ve')"
    by (auto simp: p split: sum.splits)
  from Cons.prems(4) have t: "t < nv" and ps: "\<forall>p \<in> set pairs. fst p < nv" by (simp_all add: p)
  from Cons.prems(5) have a1: "b = Emb_context \<or> t \<noteq> u"
    and a2: "b = Emb_context \<or> u \<notin> fst ` set pairs" by (auto simp: p)
  from pair_update_wf [OF Cons.prems(1) t Cons.prems(2) one]
  have wf1: "emb_wf nv n E1" "length ve1 = n" by simp_all
  have "row (emb_vertex E1) n u = row (emb_vertex E) n u"
    by (rule pair_update_source_row [OF Cons.prems(1) t Cons.prems(3) one a1])
  with Cons.IH [OF wf1 Cons.prems(3) ps a2 rest] show ?case by simp
qed

lemma sample_pairs_props:
  assumes v: "v < nv"
    and neg: "length (neg_table tbl) = neg_table_size"
      "\<forall>t \<in> set (neg_table tbl). 0 \<le> t \<and> t < int nv"
  shows "length (sample_pairs cfg tbl v sd) = num_negative cfg + 1"
    and "\<forall>p \<in> set (sample_pairs cfg tbl v sd). fst p < nv"
proof -
  have len: "\<And>sd m. length (negative_targets (neg_table tbl) sd m) = m"
  proof -
    fix sd m show "length (negative_targets (neg_table tbl) sd m) = m"
      by (induction m arbitrary: sd) simp_all
  qed
  have mem: "\<And>sd m. set (negative_targets (neg_table tbl) sd m) \<subseteq> set (neg_table tbl)"
  proof -
    fix sd m show "set (negative_targets (neg_table tbl) sd m) \<subseteq> set (neg_table tbl)"
      using Rand_index neg(1) by (induction m arbitrary: sd) simp_all
  qed
  show "length (sample_pairs cfg tbl v sd) = num_negative cfg + 1"
    by (simp add: sample_pairs_def len)
  have "\<forall>t \<in> set (negative_targets (neg_table tbl) sd (num_negative cfg)). nat t < nv"
  proof
    fix t assume "t \<in> set (negative_targets (neg_table tbl) sd (num_negative cfg))"
    with mem [of sd "num_negative cfg"] have "t \<in> set (neg_table tbl)" by blast
    with neg(2) have "0 \<le> t" "t < int nv" by simp_all
    then show "nat t < nv" by linarith
  qed
  then show "\<forall>p \<in> set (sample_pairs cfg tbl v sd). fst p < nv"
    using v by (auto simp: sample_pairs_def)
qed


text \<open>
  C2. For an edge \<open>(u, v)\<close> drawn by \<open>SampleAnEdge\<close>, \<open>order\<close> 1 or 2 and embeddings of
  \<open>nv\<close> rows, the sample that lines 274 to 298 process, with their loops over the cells of
  the flat blocks and \<open>Update\<close> writing through its pointers, is the step of the
  specification on rows, \<open>train_sample_spec\<close>: \<open>num_negative + 1\<close> pairs in turn, each with
  \<open>x\<close> and \<open>g\<close> from the rows as they are, \<open>g * targetVec\<close> added to the error buffer with
  the target row as it was before the pair, the target row updated at once, and the row of
  \<open>u\<close> increased by the buffer after the last pair. After any number \<open>k\<close> of the pairs the
  row of \<open>u\<close> in \<open>emb_vertex\<close> is as it was before the first, when \<open>order\<close> is 2 or \<open>u\<close> is
  not among the targets.
\<close>

theorem C2_train_sample:
  assumes ord: "order cfg = 1 \<or> order cfg = 2"
    and wf: "length (emb_vertex E) = nv * emb_dim cfg" "length (emb_context E) = nv * emb_dim cfg"
    and neg: "length (neg_table tbl) = neg_table_size"
      "\<forall>t \<in> set (neg_table tbl). 0 \<le> t \<and> t < int nv"
    and edge: "SampleAnEdge (alias_table tbl) (num_edges tbl) r1 r2 = Inr curedge"
      "curedge < length (edge_source_id tbl)" "curedge < length (edge_target_id tbl)"
    and u: "edge_source_id tbl ! curedge = u" "u < nv"
    and v: "edge_target_id tbl ! curedge = v" "v < nv"
  shows "train_sample cfg tbl lr r1 r2 (E, ve, sd) = train_sample_spec cfg tbl lr u v E sd
     \<and> length (sample_pairs cfg tbl v sd) = num_negative cfg + 1
     \<and> (\<forall>k E1 err.
           pairs_update (emb_dim cfg) lr (sigmoid_table tbl) u
               (if order cfg = 1 then Emb_vertex else Emb_context)
               (E, replicate (emb_dim cfg) 0) (take k (sample_pairs cfg tbl v sd)) = Inr (E1, err)
           \<longrightarrow> order cfg = 2 \<or> u \<notin> fst ` set (sample_pairs cfg tbl v sd)
           \<longrightarrow> row (emb_vertex E1) (emb_dim cfg) u = row (emb_vertex E) (emb_dim cfg) u)"
proof (intro conjI allI impI)
  let ?n = "emb_dim cfg"
  let ?b = "if order cfg = 1 then Emb_vertex else Emb_context"
  let ?ps = "sample_pairs cfg tbl v sd"
  have ewf: "emb_wf nv ?n E" using wf by (simp add: emb_wf_def)
  have z: "length (replicate ?n (0::real)) = ?n" by simp
  note sp = sample_pairs_props [OF v(2) neg, of cfg sd]
  show "length ?ps = num_negative cfg + 1" by (rule sp(1))
  have cu: "cell (edge_source_id tbl) (int curedge) = Inr u"
    using edge(2) u(1) by (simp add: cell_def)
  have cv: "cell (edge_target_id tbl) (int curedge) = Inr v"
    using edge(3) v(1) by (simp add: cell_def)
  note loop = negative_sampling_pairs [OF ord u(2) v(2) neg ewf z, of lr sd]
  show "train_sample cfg tbl lr r1 r2 (E, ve, sd) = train_sample_spec cfg tbl lr u v E sd"
  proof (cases "pairs_update ?n lr (sigmoid_table tbl) u ?b (E, replicate ?n 0) ?ps")
    case (Inl e)
    then show ?thesis
      by (simp only: train_sample_def train_sample_spec_def edge(1) cu cv Let_def fst_conv snd_conv
          sum.case loop)
  next
    case (Inr st1)
    obtain E1 err where st1: "st1 = (E1, err)" by (cases st1)
    from pairs_update_wf [OF ewf z sp(2) Inr [unfolded st1]]
    have wf1: "emb_wf nv ?n E1" "length err = ?n" by simp_all
    have bu: "u * ?n + ?n \<le> length (emb_vertex E1)"
      using wf1(1) row_bound [OF u(2), of ?n] by (simp add: emb_wf_def)
    note fin = apply_error [OF bu wf1(2)]
    show ?thesis
      by (simp only: train_sample_def train_sample_spec_def edge(1) cu cv Let_def fst_conv snd_conv
          sum.case prod.case loop Inr st1 bu if_True fin)
  qed
next
  fix k E1 err
  let ?n = "emb_dim cfg"
  let ?b = "if order cfg = 1 then Emb_vertex else Emb_context"
  let ?ps = "sample_pairs cfg tbl v sd"
  assume run: "pairs_update ?n lr (sigmoid_table tbl) u ?b (E, replicate ?n 0) (take k ?ps)
                 = Inr (E1, err)"
    and apart: "order cfg = 2 \<or> u \<notin> fst ` set ?ps"
  have ewf: "emb_wf nv ?n E" using wf by (simp add: emb_wf_def)
  have z: "length (replicate ?n (0::real)) = ?n" by simp
  note sp = sample_pairs_props [OF v(2) neg, of cfg sd]
  have sub: "set (take k ?ps) \<subseteq> set ?ps" by (rule set_take_subset)
  have ps: "\<forall>p \<in> set (take k ?ps). fst p < nv" using sp(2) sub by blast
  have ap: "?b = Emb_context \<or> u \<notin> fst ` set (take k ?ps)"
    using apart sub by auto
  show "row (emb_vertex E1) ?n u = row (emb_vertex E) ?n u"
    by (rule pairs_update_source_row [OF ewf z u(2) ps ap run])
qed

theorem C2_train_sample_witness:
  "train_sample example_config example_tables (1/40) 0 0 (example_embeddings, [0, 0], 0)
     = train_sample_spec example_config example_tables (1/40) 0 1 example_embeddings 0"
proof -
  have ord: "order example_config = 1 \<or> order example_config = 2"
    by (simp add: example_config_def)
  have wf: "length (emb_vertex example_embeddings) = 3 * emb_dim example_config"
    "length (emb_context example_embeddings) = 3 * emb_dim example_config"
    by (simp_all add: example_embeddings_def example_config_def)
  have neg: "length (neg_table example_tables) = neg_table_size"
    "\<forall>t \<in> set (neg_table example_tables). 0 \<le> t \<and> t < int 3"
    by (simp_all add: example_tables_def)
  have edge: "SampleAnEdge (alias_table example_tables) (num_edges example_tables) 0 0 = Inr 0"
    "0 < length (edge_source_id example_tables)" "0 < length (edge_target_id example_tables)"
    by (simp_all add: example_tables_def SampleAnEdge_def trunc_to_int_def rd_def)
  have uv: "edge_source_id example_tables ! 0 = 0" "(0::nat) < 3"
    "edge_target_id example_tables ! 0 = 1" "(1::nat) < 3"
    by (simp_all add: example_tables_def)
  from C2_train_sample [OF ord wf neg edge uv, of "1/40" "[0, 0]" 0]
  show ?thesis by (elim conjE)
qed


subsection \<open>The loop of a worker thread\<close>

lemma thread_step_Continue_count:
  "thread_step cfg tbl uniform s = Continue s' \<Longrightarrow>
   count s' = count s + 1 \<and> count s \<le> total_samples cfg sdiv num_threads cfg + 2"
  by (auto simp: thread_step_def progress_update_def progress_store_def rho_clamp_def Let_def
      split: if_splits sum.splits)

lemma thread_step_Break_exit:
  "thread_step cfg tbl uniform s = Break s' \<Longrightarrow> halted s' = None \<Longrightarrow>
   s' = s \<and> count s > total_samples cfg sdiv num_threads cfg + 2"
  by (auto simp: thread_step_def Let_def split: if_splits sum.splits)

lemma thread_step_Break_count:
  "thread_step cfg tbl uniform s = Break s' \<Longrightarrow> count s' = count s"
  by (auto simp: thread_step_def progress_update_def progress_store_def rho_clamp_def Let_def
      split: if_splits sum.splits)

lemma sdiv_nonneg_eq_div:
  "0 \<le> (a :: int) \<Longrightarrow> 0 < b \<Longrightarrow> a sdiv b = a div b"
  by (simp add: signed_divide_int_def sgn_if)

lemma thread_iterations:
  "\<exists>n. int n \<le> max 0 (total_samples cfg sdiv num_threads cfg + 3 - count s)
       \<and> thread_step cfg tbl uniform ((after_step cfg tbl uniform ^^ n) s)
            = Break (TrainLINEThread cfg tbl uniform s)
       \<and> (\<forall>m<n. \<exists>s'. thread_step cfg tbl uniform ((after_step cfg tbl uniform ^^ m) s)
                         = Continue s')"
proof (induction cfg tbl uniform s rule: TrainLINEThread.induct)
  case (1 cfg tbl uniform s)
  show ?case
  proof (cases "thread_step cfg tbl uniform s")
    case (Break s')
    then have "TrainLINEThread cfg tbl uniform s = s'"
      by (subst TrainLINEThread.simps) simp
    with Break show ?thesis by (intro exI [of _ 0]) simp
  next
    case (Continue s')
    then have eq: "TrainLINEThread cfg tbl uniform s = TrainLINEThread cfg tbl uniform s'"
      by (subst TrainLINEThread.simps) simp
    have as: "after_step cfg tbl uniform s = s'"
      by (simp add: after_step_def Continue)
    from thread_step_Continue_count [OF Continue]
    have c: "count s' = count s + 1" "count s \<le> total_samples cfg sdiv num_threads cfg + 2"
      by simp_all
    from "1.IH" [OF Continue] obtain n where
      n: "int n \<le> max 0 (total_samples cfg sdiv num_threads cfg + 3 - count s')"
      and br: "thread_step cfg tbl uniform ((after_step cfg tbl uniform ^^ n) s')
                 = Break (TrainLINEThread cfg tbl uniform s')"
      and co: "\<forall>m<n. \<exists>s''. thread_step cfg tbl uniform ((after_step cfg tbl uniform ^^ m) s')
                         = Continue s''"
      by blast
    have pw: "\<And>m. (after_step cfg tbl uniform ^^ Suc m) s = (after_step cfg tbl uniform ^^ m) s'"
      by (simp add: funpow_swap1 as)
    have "int (Suc n) \<le> max 0 (total_samples cfg sdiv num_threads cfg + 3 - count s)"
      using n c by simp
    moreover have "thread_step cfg tbl uniform ((after_step cfg tbl uniform ^^ Suc n) s)
            = Break (TrainLINEThread cfg tbl uniform s)"
      unfolding pw eq by (rule br)
    moreover have "\<forall>m<Suc n. \<exists>s''. thread_step cfg tbl uniform ((after_step cfg tbl uniform ^^ m) s)
                         = Continue s''"
    proof (intro allI impI)
      fix m assume m: "m < Suc n"
      show "\<exists>s''. thread_step cfg tbl uniform ((after_step cfg tbl uniform ^^ m) s) = Continue s''"
      proof (cases m)
        case 0
        with Continue show ?thesis by simp
      next
        case (Suc m')
        with m co show ?thesis unfolding Suc pw by simp
      qed
    qed
    ultimately show ?thesis by blast
  qed
qed

lemma thread_final_count:
  "count s \<le> total_samples cfg sdiv num_threads cfg + 3 \<Longrightarrow>
   count (TrainLINEThread cfg tbl uniform s) \<le> total_samples cfg sdiv num_threads cfg + 3
   \<and> (halted (TrainLINEThread cfg tbl uniform s) = None
        \<longrightarrow> count (TrainLINEThread cfg tbl uniform s) = total_samples cfg sdiv num_threads cfg + 3)"
proof (induction cfg tbl uniform s rule: TrainLINEThread.induct)
  case (1 cfg tbl uniform s)
  show ?case
  proof (cases "thread_step cfg tbl uniform s")
    case (Break s')
    then have eq: "TrainLINEThread cfg tbl uniform s = s'"
      by (subst TrainLINEThread.simps) simp
    have c: "count s' = count s" by (rule thread_step_Break_count [OF Break])
    have "halted s' = None \<Longrightarrow> count s > total_samples cfg sdiv num_threads cfg + 2"
      using thread_step_Break_exit [OF Break] by blast
    with c "1.prems" show ?thesis
      unfolding eq by (intro conjI impI) linarith+
  next
    case (Continue s')
    then have eq: "TrainLINEThread cfg tbl uniform s = TrainLINEThread cfg tbl uniform s'"
      by (subst TrainLINEThread.simps) simp
    from thread_step_Continue_count [OF Continue]
    have "count s' \<le> total_samples cfg sdiv num_threads cfg + 3" by simp
    from "1.IH" [OF Continue this] show ?thesis unfolding eq .
  qed
qed


text \<open>
  C8. With \<open>N \<ge> 1\<close> threads and a budget of \<open>T \<ge> 0\<close> samples, the loop of a worker that
  starts with \<open>count = 0\<close> ends: after some number \<open>n \<le> T div N + 3\<close> of full passes, each
  of which ends with \<open>count++\<close>, the next pass leaves the loop, with the state that
  \<open>TrainLINEThread\<close> returns. It leaves through the test \<open>count > T / N + 2\<close>, with
  \<open>count = T div N + 3\<close>, unless a pass has left defined behaviour before.
\<close>

theorem C8_thread_terminates:
  assumes N: "1 \<le> num_threads cfg" and T: "0 \<le> total_samples cfg" and c0: "count s = 0"
  shows "\<exists>n. int n \<le> total_samples cfg div num_threads cfg + 3
       \<and> thread_step cfg tbl uniform ((after_step cfg tbl uniform ^^ n) s)
            = Break (TrainLINEThread cfg tbl uniform s)
       \<and> (\<forall>m<n. \<exists>s'. thread_step cfg tbl uniform ((after_step cfg tbl uniform ^^ m) s)
                         = Continue s')
       \<and> count (TrainLINEThread cfg tbl uniform s) \<le> total_samples cfg div num_threads cfg + 3
       \<and> (halted (TrainLINEThread cfg tbl uniform s) = None
            \<longrightarrow> count (TrainLINEThread cfg tbl uniform s)
                  = total_samples cfg div num_threads cfg + 3)"
proof -
  have d: "total_samples cfg sdiv num_threads cfg = total_samples cfg div num_threads cfg"
    using N T by (intro sdiv_nonneg_eq_div) simp_all
  have q: "0 \<le> total_samples cfg div num_threads cfg"
    using N T by (simp add: pos_imp_zdiv_nonneg_iff)
  from thread_iterations [of cfg s tbl uniform] obtain n where
    n: "int n \<le> max 0 (total_samples cfg sdiv num_threads cfg + 3 - count s)"
    and br: "thread_step cfg tbl uniform ((after_step cfg tbl uniform ^^ n) s)
            = Break (TrainLINEThread cfg tbl uniform s)"
    and co: "\<forall>m<n. \<exists>s'. thread_step cfg tbl uniform ((after_step cfg tbl uniform ^^ m) s)
                         = Continue s'"
    by blast
  have n': "int n \<le> total_samples cfg div num_threads cfg + 3"
    using n q by (simp add: d c0)
  have "count s \<le> total_samples cfg sdiv num_threads cfg + 3"
    using q by (simp add: d c0)
  from thread_final_count [OF this, of tbl uniform]
  have fc: "count (TrainLINEThread cfg tbl uniform s) \<le> total_samples cfg div num_threads cfg + 3
       \<and> (halted (TrainLINEThread cfg tbl uniform s) = None
            \<longrightarrow> count (TrainLINEThread cfg tbl uniform s)
                  = total_samples cfg div num_threads cfg + 3)"
    unfolding d .
  show ?thesis
    by (rule exI [of _ n]) (intro conjI n' br co conjunct1 [OF fc] conjunct2 [OF fc])
qed

theorem C8_thread_terminates_witness:
  "count (TrainLINEThread example_config example_tables (\<lambda>_. 0) example_state) \<le> 1000003"
proof -
  have h: "1 \<le> num_threads example_config" "0 \<le> total_samples example_config"
    "count example_state = 0"
    by (simp_all add: example_config_def example_state_def)
  have e: "total_samples example_config div num_threads example_config + 3 = 1000003"
    by (simp add: example_config_def)
  from C8_thread_terminates [OF h, of example_tables "\<lambda>_. 0"]
  have "count (TrainLINEThread example_config example_tables (\<lambda>_. 0) example_state)
          \<le> total_samples example_config div num_threads example_config + 3"
    by (elim exE conjE)
  then show ?thesis unfolding e .
qed

subsection \<open>The learning rate\<close>



















subsection \<open>Allocation failures in the main function\<close>

text \<open>
  A failure of an allocation that is tested (the edge arrays, the alias table and its work
  arrays, the two embedding matrices) makes \<open>TrainLINEMain\<close> return with the output as it
  was. A failure of the allocation of \<open>neg_table\<close> or of \<open>sigmoid_table\<close> is not noticed: the
  first store goes through the null pointer.
\<close>

lemma InitVector_Inr:
  "ok A_emb_vertex \<Longrightarrow> ok A_emb_context \<Longrightarrow> \<exists>E. InitVector ok nv n unif = Inr E"
  by (simp add: InitVector_def Let_def)

lemma TrainLINEMain_checked_edges:
  assumes "\<not> ok A_edge_source_id \<or> \<not> ok A_edge_target_id \<or> \<not> ok A_edge_weight"
  shows "TrainLINEMain ok cfg input_u input_v input_w unif pw threads out = Inr out"
  using assms by (auto simp: TrainLINEMain_def TrainLINEMain_setup_def VectorReadData_def)

lemma TrainLINEMain_checked_alias:
  assumes "VectorReadData ok InitHashTable input_u input_v input_w = Inr g"
    and "\<not> ok A_alias \<or> \<not> ok A_prob \<or> \<not> ok A_norm_prob \<or> \<not> ok A_large_block
         \<or> \<not> ok A_small_block"
  shows "TrainLINEMain ok cfg input_u input_v input_w unif pw threads out = Inr out"
  using assms by (auto simp: TrainLINEMain_def TrainLINEMain_setup_def InitAliasTable_def)

lemma TrainLINEMain_checked_emb:
  assumes "VectorReadData ok InitHashTable input_u input_v input_w = Inr g"
    and "InitAliasTable ok (g_weight g) = Inr tbl"
    and "\<not> ok A_emb_vertex \<or> \<not> ok A_emb_context"
  shows "TrainLINEMain ok cfg input_u input_v input_w unif pw threads out = Inr out"
  using assms by (auto simp: TrainLINEMain_def TrainLINEMain_setup_def InitVector_def Let_def)

lemma TrainLINEMain_neg_table:
  assumes ord: "order cfg = 1 \<or> order cfg = 2"
    and g: "VectorReadData ok InitHashTable input_u input_v input_w = Inr g"
    and tbl: "InitAliasTable ok (g_weight g) = Inr tbl"
    and emb: "ok A_emb_vertex" "ok A_emb_context"
    and neg: "\<not> ok A_neg_table"
  shows "TrainLINEMain ok cfg input_u input_v input_w unif pw threads out
           = Inl (NullDeref A_neg_table)"
proof -
  from InitVector_Inr [OF emb] obtain E where
    E: "InitVector ok (length (g_vertex g)) (emb_dim cfg) unif = Inr E" by blast
  have n: "InitNegTable pw ok (map degree (g_vertex g)) = Inl (NullDeref A_neg_table)"
    using neg by (simp add: InitNegTable_def)
  have "TrainLINEMain_setup ok cfg input_u input_v input_w unif pw = Inl (NullDeref A_neg_table)"
    using ord by (auto simp add: TrainLINEMain_setup_def g tbl E n)
  then show ?thesis by (simp add: TrainLINEMain_def)
qed

lemma TrainLINEMain_sigmoid_table:
  assumes ord: "order cfg = 1 \<or> order cfg = 2"
    and g: "VectorReadData ok InitHashTable input_u input_v input_w = Inr g"
    and tbl: "InitAliasTable ok (g_weight g) = Inr tbl"
    and emb: "ok A_emb_vertex" "ok A_emb_context"
    and neg: "InitNegTable pw ok (map degree (g_vertex g)) = Inr nt"
    and sg: "\<not> ok A_sigmoid_table"
  shows "TrainLINEMain ok cfg input_u input_v input_w unif pw threads out
           = Inl (NullDeref A_sigmoid_table)"
proof -
  from InitVector_Inr [OF emb] obtain E where
    E: "InitVector ok (length (g_vertex g)) (emb_dim cfg) unif = Inr E" by blast
  have "TrainLINEMain_setup ok cfg input_u input_v input_w unif pw
          = Inl (NullDeref A_sigmoid_table)"
    using ord sg by (auto simp add: TrainLINEMain_setup_def g tbl E neg InitSigmoidTable_alloc_def)
  then show ?thesis by (simp add: TrainLINEMain_def)
qed

lemma triangle_names:
  "first_occurrences (stream_names triangle_u triangle_v) = [''A'', ''B'', ''C'']"
  by (simp add: first_occurrences_def stream_names_def c_str_def note_name_def
      triangle_u_def triangle_v_def)

text \<open>
  Claim C6 fails on the code. On the example run, when every allocation succeeds but the
  one of \<open>neg_table\<close> in \<open>InitNegTable\<close>, \<open>TrainLINEMain\<close> does not return: \<open>InitNegTable\<close> stores
  to \<open>neg_table[0]\<close> through the null pointer, whatever the generator, the \<open>pow\<close> of the
  library, the threads and the output vectors are.
\<close>

theorem C6_neg_table_alloc_unchecked:
  "TrainLINEMain (\<lambda>site. site \<noteq> A_neg_table) example_config triangle_u triangle_v triangle_w
     unif pw threads out = Inl (NullDeref A_neg_table)"
proof -
  let ?ok = "\<lambda>site. site \<noteq> A_neg_table"
  have ok: "?ok A_edge_source_id" "?ok A_edge_target_id" "?ok A_edge_weight" by simp_all
  have len: "length triangle_v = length triangle_u" "length triangle_w = length triangle_u"
    by (simp_all add: triangle_u_def triangle_v_def triangle_w_def)
  have short: "\<forall>s \<in> set triangle_u \<union> set triangle_v. length (c_str s) < MAX_STRING"
    by (simp add: triangle_u_def triangle_v_def c_str_def MAX_STRING_def)
  have room: "length (first_occurrences (stream_names triangle_u triangle_v)) < hash_table_size"
    unfolding triangle_names by (simp add: hash_table_size_def)
  have few: "length triangle_u \<le> INT_MAX" by (simp add: triangle_u_def INT_MAX_def)
  from VectorReadData_names [of ?ok triangle_u triangle_v triangle_w, OF ok few len short room]
  obtain g where
    g: "VectorReadData ?ok InitHashTable triangle_u triangle_v triangle_w = Inr g"
    and w: "g_weight g = triangle_w"
    by (elim exE conjE)
  have tbl: "InitAliasTable ?ok (g_weight g)
               = Inr (prob (alias_finish (alias_pair (alias_classify (norm_weights (g_weight g))))),
                      alias_tab (alias_finish (alias_pair (alias_classify (norm_weights (g_weight g))))))"
    by (rule InitAliasTable_Inr) (simp_all add: w triangle_w_def)
  show ?thesis
    by (rule TrainLINEMain_neg_table [OF _ g tbl]) (simp_all add: example_config_def)
qed

end
